theory Spec2Isabelle
  imports Complex_Main "HOL-Library.Word"
begin

section \<open>Data model (ann.h)\<close>

text \<open>
  The C++ types are rendered as follows.
  \<^item> \<open>unsigned short int\<close> is \<open>16 word\<close>: conversion from \<open>int\<close> truncates
    (\<open>word_of_int\<close>), arithmetic assigned back to such a field wraps modulo \<open>2 ^ 16\<close>,
    and \<open>unat\<close>/\<open>uint\<close> read the value (the integral promotion in comparisons and
    loop bounds).
  \<^item> \<open>int\<close> arguments and loop counters are \<open>int\<close>/\<open>nat\<close>: they are only compared
    and truncated. The one product computed in \<open>int\<close> is noted at \<open>fullyConnectFF\<close>.
  \<^item> a \<open>double\<close> is the \<open>real\<close> that it denotes, so every value of the model is a
    finite number: the infinities and NaN are no values of the model, and an operation
    whose result is one of them has no result here (\<open>None\<close>). \<open>randomizeW\<close> and the
    extraction of a weight from a file round each result to the nearest double (section
    \<open>Double arithmetic\<close>); the products, the sums and the exponential of \<open>activate\<close> are
    taken exactly.
  \<^item> \<open>std::vector\<close> is a list. Indexing a vector out of range is undefined behaviour
    in C++; every method that indexes the neurons returns an \<open>option\<close>, and \<open>None\<close>
    stands for such an out-of-range access, after which nothing is known of the object.
\<close>

datatype NeuronType = INPUT_N | OUTPUT_N | HIDDEN_N | NUM_NEURON_TYPE

record Neuron =
  input_sum :: real
  output_val :: real
  type :: NeuronType

text \<open>\<open>Neuron(NeuronType ntype)\<close>: the field \<open>output\<close> of the source is \<open>output_val\<close> here.\<close>

definition Neuron_ctor :: "NeuronType \<Rightarrow> Neuron" where
  "Neuron_ctor ntype = \<lparr>input_sum = 0, output_val = 0, type = ntype\<rparr>"

record Connection =
  source_neuron_idx :: "16 word"
  target_neuron_idx :: "16 word"
  weight :: real
  data :: real

text \<open>\<open>Connection(int source, int target, double w)\<close>: the indices are truncated to 16 bits.\<close>

definition Connection_ctor :: "int \<Rightarrow> int \<Rightarrow> real \<Rightarrow> Connection" where
  "Connection_ctor source target w =
     \<lparr>source_neuron_idx = word_of_int source, target_neuron_idx = word_of_int target,
      weight = w, data = 0\<rparr>"

record ANN =
  num_input :: "16 word"
  num_hidden :: "16 word"
  num_output :: "16 word"
  num_iPLUSh :: "16 word"
  total_num_neurons :: "16 word"
  neurons :: "Neuron list"
  total_num_connections :: "16 word"
  connections :: "Connection list"

text \<open>
  The source reports failures on \<open>std::cerr\<close> and then either ends the process
  (constructor) or returns \<open>-1\<close>. The two kinds of failure are named as the
  specification names them.
\<close>

datatype error = ConfigError | IOError

section \<open>Activation function\<close>

definition sigmoid_AF :: "real \<Rightarrow> real" where
  "sigmoid_AF x =
     (if x < - 15 then 0
      else if x > 15 then 1
      else 1 / (1 + exp (- x)))"

section \<open>Construction from explicit topology\<close>

text \<open>
  The loop over \<open>c\<close> of the constructor: it checks the indices of connection \<open>c\<close>
  and leaves with \<open>exit(EXIT_FAILURE)\<close>, or appends the connection.
\<close>

fun ctor_connections ::
  "16 word \<Rightarrow> int list \<Rightarrow> int list \<Rightarrow> real list \<Rightarrow> nat list \<Rightarrow> Connection list
     \<Rightarrow> error + Connection list" where
  "ctor_connections tot c_src c_trg c_wts [] acc = Inr acc"
| "ctor_connections tot c_src c_trg c_wts (c # rest) acc =
     (if c_src ! c < 0 \<or> c_src ! c > uint tot \<or> c_trg ! c < 0 \<or> c_trg ! c > uint tot
      then Inl ConfigError
      else ctor_connections tot c_src c_trg c_wts rest
             (acc @ [Connection_ctor (c_src ! c) (c_trg ! c) (c_wts ! c)]))"

definition ctor_ntype :: "16 word \<Rightarrow> 16 word \<Rightarrow> nat \<Rightarrow> NeuronType" where
  "ctor_ntype ni iph n =
     (if n < unat ni then INPUT_N else if n < unat iph then HIDDEN_N else OUTPUT_N)"

text \<open>
  \<open>ANN::ANN(num_neurons, c_src, c_trg, c_wts)\<close>. The loop counter \<open>c\<close> stays below
  \<open>total_num_connections\<close>, which is the size of \<open>c_src\<close> truncated to 16 bits, so the
  three argument vectors are never read out of range.
\<close>

definition ANN_ctor :: "int list \<Rightarrow> int list \<Rightarrow> int list \<Rightarrow> real list \<Rightarrow> error + ANN" where
  "ANN_ctor num_neurons c_src c_trg c_wts =
     (if \<not> (length num_neurons = 2 \<or> length num_neurons = 3) then Inl ConfigError
      else if length c_src \<noteq> length c_trg \<or> length c_src \<noteq> length c_wts
                \<or> length c_trg \<noteq> length c_wts then Inl ConfigError
      else
        let ni = (word_of_int (num_neurons ! 0) :: 16 word);
            nh = (if length num_neurons = 2 then 0 else word_of_int (num_neurons ! 1));
            no = (if length num_neurons = 2 then word_of_int (num_neurons ! 1)
                  else word_of_int (num_neurons ! 2));
            iph = ni + nh;
            tot = iph + no;
            tc = (word_of_nat (length c_src) :: 16 word);
            ns = map (\<lambda>n. Neuron_ctor (ctor_ntype ni iph n)) [0..<unat tot]
        in case (if tc > 0 then ctor_connections tot c_src c_trg c_wts [0..<unat tc] []
                 else Inr []) of
             Inl e \<Rightarrow> Inl e
           | Inr cs \<Rightarrow>
               Inr \<lparr>num_input = ni, num_hidden = nh, num_output = no, num_iPLUSh = iph,
                    total_num_neurons = tot, neurons = ns, total_num_connections = tc,
                    connections = cs\<rparr>)"

section \<open>Input and output accessors\<close>

fun setInput_loop :: "nat list \<Rightarrow> real list \<Rightarrow> Neuron list \<Rightarrow> Neuron list option" where
  "setInput_loop [] inputs ns = Some ns"
| "setInput_loop (n # rest) inputs ns =
     (if n < length ns \<and> n < length inputs
      then setInput_loop rest inputs (ns[n := (ns ! n)\<lparr>output_val := inputs ! n\<rparr>])
      else None)"

text \<open>
  \<open>ANN::setInput\<close> returns the \<open>int\<close> status and leaves the network in its new state:
  the result is the pair of both.
\<close>

definition setInput :: "ANN \<Rightarrow> real list \<Rightarrow> (int \<times> ANN) option" where
  "setInput net inputs =
     (if length inputs \<noteq> unat (num_input net) then Some (- 1, net)
      else case setInput_loop [0..<unat (num_input net)] inputs (neurons net) of
             None \<Rightarrow> None
           | Some ns \<Rightarrow> Some (0, net\<lparr>neurons := ns\<rparr>))"

fun getOutput_loop :: "nat list \<Rightarrow> Neuron list \<Rightarrow> real list \<Rightarrow> real list option" where
  "getOutput_loop [] ns out = Some out"
| "getOutput_loop (n # rest) ns out =
     (if n < length ns then getOutput_loop rest ns (out @ [output_val (ns ! n)]) else None)"

definition getOutput :: "ANN \<Rightarrow> real list option" where
  "getOutput net =
     getOutput_loop [unat (num_iPLUSh net)..<unat (total_num_neurons net)] (neurons net) []"

section \<open>Activation\<close>

text \<open>
  First loop of \<open>ANN::activate\<close>: each connection in index order stores
  \<open>weight * source->output\<close> in its \<open>data\<close> field and adds it to the target's
  \<open>input_sum\<close>.
\<close>

fun activate_connections ::
  "Connection list \<Rightarrow> Neuron list \<Rightarrow> (Connection list \<times> Neuron list) option" where
  "activate_connections [] ns = Some ([], ns)"
| "activate_connections (conn # rest) ns =
     (let s = unat (source_neuron_idx conn); t = unat (target_neuron_idx conn)
      in if s < length ns \<and> t < length ns
         then
           let d = weight conn * output_val (ns ! s);
               ns' = ns[t := (ns ! t)\<lparr>input_sum := input_sum (ns ! t) + d\<rparr>]
           in case activate_connections rest ns' of
                None \<Rightarrow> None
              | Some (cs', ns'') \<Rightarrow> Some (conn\<lparr>data := d\<rparr> # cs', ns'')
         else None)"

text \<open>Second loop: one neuron is activated and its accumulator reset.\<close>

definition activate_neuron :: "Neuron \<Rightarrow> Neuron" where
  "activate_neuron nr = nr\<lparr>output_val := sigmoid_AF (input_sum nr), input_sum := 0\<rparr>"

fun activate_neurons :: "nat list \<Rightarrow> Neuron list \<Rightarrow> Neuron list option" where
  "activate_neurons [] ns = Some ns"
| "activate_neurons (n # rest) ns =
     (if n < length ns then activate_neurons rest (ns[n := activate_neuron (ns ! n)])
      else None)"

definition activate :: "ANN \<Rightarrow> ANN option" where
  "activate net =
     (case activate_connections (connections net) (neurons net) of
        None \<Rightarrow> None
      | Some (cs, ns) \<Rightarrow>
          (case activate_neurons [unat (num_input net)..<unat (total_num_neurons net)] ns of
             None \<Rightarrow> None
           | Some ns' \<Rightarrow> Some (net\<lparr>connections := cs, neurons := ns'\<rparr>)))"

section \<open>Fully connected feedforward topology\<close>

text \<open>
  \<open>ANN::fullyConnectFF\<close>. The two nested loops append one connection per iteration;
  the counter \<open>c\<close> of the source is incremented and never read, and its loop variable
  \<open>o\<close> is \<open>out\<close> here. The recorded count is the product, computed in \<open>int\<close> and
  assigned to a 16-bit field: the model wraps it, which is what the assignment does as
  long as the product stays in the range of \<open>int\<close>.
\<close>

definition fullyConnectFF :: "ANN \<Rightarrow> ANN" where
  "fullyConnectFF net =
     net\<lparr>total_num_connections := num_hidden net * (num_input net + num_output net),
         connections :=
           concat (map (\<lambda>i. map (\<lambda>h. Connection_ctor (int i) (int h) 0)
                                [unat (num_input net)..<unat (num_iPLUSh net)])
                       [0..<unat (num_input net)])
           @ concat (map (\<lambda>h. map (\<lambda>out. Connection_ctor (int h) (int out) 0)
                                  [unat (num_iPLUSh net)..<unat (total_num_neurons net)])
                         [unat (num_input net)..<unat (num_iPLUSh net)])\<rparr>"

section \<open>Double arithmetic\<close>

text \<open>
  The doubles are the binary64 numbers of IEEE 754. \<open>round_half_even\<close> rounds a real to
  the nearest integer, a tie going to the even one. \<open>round_double x\<close> is the double
  nearest to \<open>x\<close> when the exponent is not bounded above: the multiple of the unit in the
  last place \<open>2 powi (ulp_exp x)\<close> nearest to \<open>x\<close>, a tie going to the even multiple; the
  unit is \<open>2 powi (- 1074)\<close> for the subnormal numbers. \<open>double_of x\<close> is what an operation
  with the exact result \<open>x\<close> returns in the default rounding mode, and it is \<open>None\<close> when
  the operation overflows and returns an infinity. \<open>is_double x\<close>: the number \<open>x\<close> is a
  finite double.
\<close>

definition round_half_even :: "real \<Rightarrow> int" where
  "round_half_even y =
     (let f = \<lfloor>y\<rfloor>
      in if y - of_int f < 1 / 2 then f
         else if y - of_int f > 1 / 2 then f + 1
         else if even f then f else f + 1)"

definition ulp_exp :: "real \<Rightarrow> int" where
  "ulp_exp x = max (\<lfloor>log 2 \<bar>x\<bar>\<rfloor> - 52) (- 1074)"

definition round_double :: "real \<Rightarrow> real" where
  "round_double x =
     (if x = 0 then 0
      else let u = 2 powi (ulp_exp x)
           in of_int (round_half_even (x / u)) * u)"

definition double_of :: "real \<Rightarrow> real option" where
  "double_of x = (let y = round_double x in if \<bar>y\<bar> < 2 ^ 1024 then Some y else None)"

definition is_double :: "real \<Rightarrow> bool" where
  "is_double x \<longleftrightarrow> double_of x = Some x"

section \<open>Weight randomization\<close>

text \<open>
  \<open>rand()\<close> reads and advances the C library's global generator. The generator is made
  explicit: \<open>rnd\<close> is the sequence of values that successive calls of \<open>rand()\<close> return,
  \<open>k\<close> counts the calls made so far, and \<open>rand_max\<close> is the library's constant
  \<open>RAND_MAX\<close>. The C standard places every value of \<open>rand()\<close> between 0 and
  \<open>RAND_MAX\<close>, both included.

  \<open>new_weight\<close> is the statement
  \<open>new_w = (max - min) * (double)rand() / (double)RAND_MAX + min\<close>, where \<open>r\<close> is the
  value that \<open>rand()\<close> returned: the difference, the two conversions, the product, the
  quotient and the sum, each rounded to a double. When one of them overflows, or the
  divisor is 0, the new weight is an infinity or NaN and the model gives no result.
\<close>

definition new_weight :: "nat \<Rightarrow> nat \<Rightarrow> real \<Rightarrow> real \<Rightarrow> real option" where
  "new_weight rand_max r minv maxv =
     (case double_of (maxv - minv) of None \<Rightarrow> None | Some d \<Rightarrow>
     (case double_of (real r) of None \<Rightarrow> None | Some x \<Rightarrow>
     (case double_of (d * x) of None \<Rightarrow> None | Some p \<Rightarrow>
     (case double_of (real rand_max) of None \<Rightarrow> None | Some m \<Rightarrow>
        if m = 0 then None
        else (case double_of (p / m) of None \<Rightarrow> None | Some q \<Rightarrow> double_of (q + minv))))))"

fun randomizeW_loop ::
  "nat \<Rightarrow> (nat \<Rightarrow> nat) \<Rightarrow> nat \<Rightarrow> real \<Rightarrow> real \<Rightarrow> Connection list
     \<Rightarrow> (Connection list \<times> nat) option" where
  "randomizeW_loop rand_max rnd k minv maxv [] = Some ([], k)"
| "randomizeW_loop rand_max rnd k minv maxv (conn # rest) =
     (case new_weight rand_max (rnd k) minv maxv of
        None \<Rightarrow> None
      | Some new_w \<Rightarrow>
          (case randomizeW_loop rand_max rnd (Suc k) minv maxv rest of
             None \<Rightarrow> None
           | Some (cs, k') \<Rightarrow> Some (conn\<lparr>weight := new_w\<rparr> # cs, k')))"

text \<open>The result is the returned status, the network and the number of calls of \<open>rand()\<close>.\<close>

definition randomizeW ::
  "nat \<Rightarrow> (nat \<Rightarrow> nat) \<Rightarrow> nat \<Rightarrow> ANN \<Rightarrow> real \<Rightarrow> real \<Rightarrow> (int \<times> ANN \<times> nat) option" where
  "randomizeW rand_max rnd k net minv maxv =
     (if minv \<ge> maxv then Some (- 1, net, k)
      else case randomizeW_loop rand_max rnd k minv maxv (connections net) of
             None \<Rightarrow> None
           | Some (cs, k') \<Rightarrow> Some (0, net\<lparr>connections := cs\<rparr>, k'))"

section \<open>Persistence\<close>

text \<open>
  A file is the sequence of the whitespace-separated items it holds. \<open>Int_tok n\<close> is the
  decimal numeral of the integer \<open>n\<close>, as \<open>operator<<\<close> writes an integer. \<open>Real_tok r\<close>
  is an item written for a \<open>double\<close>, and \<open>r\<close> is the number that its text denotes.

  A stream in its default state writes a \<open>double\<close> with six significant decimal digits
  (the format \<open>%g\<close> with precision 6), rounding the exact value to nearest and ties to
  even: \<open>round_sig6\<close> is the number denoted by the text written.
\<close>

datatype token = Int_tok int | Real_tok real

definition round_sig6 :: "real \<Rightarrow> real" where
  "round_sig6 x =
     (if x = 0 then 0
      else let q = 10 powi (\<lfloor>log 10 \<bar>x\<bar>\<rfloor> - 5)
           in of_int (round_half_even (x / q)) * q)"

definition int_of_NeuronType :: "NeuronType \<Rightarrow> int" where
  "int_of_NeuronType t =
     (case t of INPUT_N \<Rightarrow> 0 | OUTPUT_N \<Rightarrow> 1 | HIDDEN_N \<Rightarrow> 2 | NUM_NEURON_TYPE \<Rightarrow> 3)"

text \<open>
  \<open>static_cast<NeuronType>(ntype)\<close>: the values of the enumeration are 0 to 3; the cast
  of any other integer has no specified result.
\<close>

definition NeuronType_of_int :: "int \<Rightarrow> NeuronType option" where
  "NeuronType_of_int n =
     (if n = 0 then Some INPUT_N else if n = 1 then Some OUTPUT_N
      else if n = 2 then Some HIDDEN_N else if n = 3 then Some NUM_NEURON_TYPE
      else None)"

text \<open>
  \<open>ANN::serialize\<close>: \<open>can_open\<close> tells whether the output file could be created. The
  status \<open>-1\<close> is \<open>Inl IOError\<close>; with status \<open>0\<close> the result is the content written.
  Both loops run over the vectors' sizes, not over the recorded counts.
\<close>

definition serialize :: "ANN \<Rightarrow> bool \<Rightarrow> error + token list" where
  "serialize net can_open =
     (if \<not> can_open then Inl IOError
      else Inr
        ([Int_tok (uint (num_input net)), Int_tok (uint (num_hidden net)),
          Int_tok (uint (num_output net)), Int_tok (uint (num_iPLUSh net)),
          Int_tok (uint (total_num_neurons net))]
         @ map (\<lambda>nr. Int_tok (int_of_NeuronType (type nr))) (neurons net)
         @ [Int_tok (uint (total_num_connections net))]
         @ concat (map (\<lambda>c. [Int_tok (uint (source_neuron_idx c)),
                              Int_tok (uint (target_neuron_idx c)),
                              Real_tok (round_sig6 (weight c))])
                       (connections net))))"

text \<open>
  The extraction operators. An extraction that meets the end of the file, an item that
  is not a numeral of the type read, or a value outside the type's range puts the C++
  stream into its failed state; what the variables hold from there on is left to the
  stream library, and the model gives no result (\<open>None\<close>) for such a file. The extraction
  of a \<open>double\<close> yields the double nearest to the number that the text denotes.
\<close>

fun read_ushort :: "token list \<Rightarrow> (16 word \<times> token list) option" where
  "read_ushort (Int_tok n # rest) =
     (if 0 \<le> n \<and> n \<le> 65535 then Some (word_of_int n, rest) else None)"
| "read_ushort _ = None"

fun read_int :: "token list \<Rightarrow> (int \<times> token list) option" where
  "read_int (Int_tok n # rest) =
     (if - 2147483648 \<le> n \<and> n \<le> 2147483647 then Some (n, rest) else None)"
| "read_int _ = None"

fun read_double :: "token list \<Rightarrow> (real \<times> token list) option" where
  "read_double (Int_tok n # rest) =
     (case double_of (of_int n) of None \<Rightarrow> None | Some v \<Rightarrow> Some (v, rest))"
| "read_double (Real_tok r # rest) =
     (case double_of r of None \<Rightarrow> None | Some v \<Rightarrow> Some (v, rest))"
| "read_double [] = None"

fun deserialize_neurons :: "nat \<Rightarrow> token list \<Rightarrow> (Neuron list \<times> token list) option" where
  "deserialize_neurons 0 ts = Some ([], ts)"
| "deserialize_neurons (Suc n) ts =
     (case read_int ts of
        None \<Rightarrow> None
      | Some (ntype, ts1) \<Rightarrow>
          (case NeuronType_of_int ntype of
             None \<Rightarrow> None
           | Some ty \<Rightarrow>
               (case deserialize_neurons n ts1 of
                  None \<Rightarrow> None
                | Some (ns, ts2) \<Rightarrow> Some (Neuron_ctor ty # ns, ts2))))"

fun deserialize_connections ::
  "nat \<Rightarrow> token list \<Rightarrow> (Connection list \<times> token list) option" where
  "deserialize_connections 0 ts = Some ([], ts)"
| "deserialize_connections (Suc n) ts =
     (case read_ushort ts of
        None \<Rightarrow> None
      | Some (src, ts1) \<Rightarrow>
          (case read_ushort ts1 of
             None \<Rightarrow> None
           | Some (trg, ts2) \<Rightarrow>
               (case read_double ts2 of
                  None \<Rightarrow> None
                | Some (w, ts3) \<Rightarrow>
                    (case deserialize_connections n ts3 of
                       None \<Rightarrow> None
                     | Some (cs, ts4) \<Rightarrow>
                         Some (Connection_ctor (uint src) (uint trg) w # cs, ts4)))))"

text \<open>
  \<open>ANN::deserialize\<close>: \<open>in_file\<close> is \<open>None\<close> when the file cannot be opened, and its
  content otherwise. The result is the returned status with the network's new state.
\<close>

definition deserialize :: "ANN \<Rightarrow> token list option \<Rightarrow> (int \<times> ANN) option" where
  "deserialize net in_file =
     (case in_file of
        None \<Rightarrow> Some (- 1, net)
      | Some ts0 \<Rightarrow>
          (case read_ushort ts0 of None \<Rightarrow> None | Some (ni, ts1) \<Rightarrow>
          (case read_ushort ts1 of None \<Rightarrow> None | Some (nh, ts2) \<Rightarrow>
          (case read_ushort ts2 of None \<Rightarrow> None | Some (no, ts3) \<Rightarrow>
          (case read_ushort ts3 of None \<Rightarrow> None | Some (iph, ts4) \<Rightarrow>
          (case read_ushort ts4 of None \<Rightarrow> None | Some (tot, ts5) \<Rightarrow>
          (case deserialize_neurons (unat tot) ts5 of None \<Rightarrow> None | Some (ns, ts6) \<Rightarrow>
          (case read_ushort ts6 of None \<Rightarrow> None | Some (tc, ts7) \<Rightarrow>
          (case deserialize_connections (unat tc) ts7 of None \<Rightarrow> None | Some (cs, ts8) \<Rightarrow>
             Some (0, net\<lparr>num_input := ni, num_hidden := nh, num_output := no,
                           num_iPLUSh := iph, total_num_neurons := tot, neurons := ns,
                           total_num_connections := tc, connections := cs\<rparr>))))))))))"

section \<open>Networks that the operations produce\<close>

text \<open>
  A network is an object that one of the two constructors has built (\<open>ANN(const char*)\<close>
  is \<open>deserialize\<close> on a new object) and that any of the methods have mutated since.
  An object whose file \<open>ANN(const char*)\<close> could not open holds indeterminate counts
  and is not counted as a network.
\<close>

inductive reachable :: "ANN \<Rightarrow> bool" where
  r_ctor: "ANN_ctor num_neurons c_src c_trg c_wts = Inr net \<Longrightarrow> reachable net"
| r_deserialize: "deserialize net0 (Some ts) = Some (0, net) \<Longrightarrow> reachable net"
| r_fullyConnectFF: "reachable net \<Longrightarrow> reachable (fullyConnectFF net)"
| r_randomizeW:
    "reachable net \<Longrightarrow> randomizeW rand_max rnd k net minv maxv = Some (rc, net', k')
       \<Longrightarrow> reachable net'"
| r_setInput: "reachable net \<Longrightarrow> setInput net inputs = Some (rc, net') \<Longrightarrow> reachable net'"
| r_activate: "reachable net \<Longrightarrow> activate net = Some net' \<Longrightarrow> reachable net'"

section \<open>Notions used in the statements\<close>

text \<open>The edge of a connection: its source and target index, read as numbers.\<close>

definition edge :: "Connection \<Rightarrow> nat \<times> nat" where
  "edge c = (unat (source_neuron_idx c), unat (target_neuron_idx c))"

text \<open>
  What every network keeps from its construction on: the neuron vector has
  \<open>total_num_neurons\<close> entries, and the accumulator of every neuron from index
  \<open>num_input\<close> on is 0 between two calls.
\<close>

definition neurons_inv :: "ANN \<Rightarrow> bool" where
  "neurons_inv net \<longleftrightarrow>
     length (neurons net) = unat (total_num_neurons net) \<and>
     (\<forall>n<length (neurons net). unat (num_input net) \<le> n \<longrightarrow> input_sum (neurons net ! n) = 0)"

text \<open>
  Two neuron vectors that the first loop of \<open>activate\<close> over the connections \<open>cs\<close> cannot
  tell apart from index \<open>ni\<close> on: the sources of \<open>cs\<close> have the same outputs, and the
  accumulators from \<open>ni\<close> on are the same. Two connections are the same edge when they
  agree on source, target and weight.
\<close>

definition same_feed :: "nat \<Rightarrow> Connection list \<Rightarrow> Neuron list \<Rightarrow> Neuron list \<Rightarrow> bool" where
  "same_feed ni cs ns ms \<longleftrightarrow>
     length ns = length ms \<and>
     (\<forall>c\<in>set cs. output_val (ns ! unat (source_neuron_idx c))
                  = output_val (ms ! unat (source_neuron_idx c))) \<and>
     (\<forall>n<length ns. ni \<le> n \<longrightarrow> input_sum (ns ! n) = input_sum (ms ! n))"

definition same_edge :: "Connection \<Rightarrow> Connection \<Rightarrow> bool" where
  "same_edge c d \<longleftrightarrow>
     source_neuron_idx c = source_neuron_idx d \<and> target_neuron_idx c = target_neuron_idx d \<and>
     weight c = weight d"

text \<open>
  \<open>serialize\<close> into a file that can be created, then \<open>deserialize\<close> of that file on
  the object \<open>net0\<close>; and the connection that \<open>deserialize\<close> builds from the three items
  written for a connection, whose weight is the double nearest to the six-digit text.
\<close>

definition reload :: "ANN \<Rightarrow> ANN \<Rightarrow> (int \<times> ANN) option" where
  "reload net0 net =
     (case serialize net True of
        Inl e \<Rightarrow> None
      | Inr ts \<Rightarrow> deserialize net0 (Some ts))"

definition restored_connection :: "Connection \<Rightarrow> Connection" where
  "restored_connection c =
     \<lparr>source_neuron_idx = source_neuron_idx c, target_neuron_idx = target_neuron_idx c,
      weight = round_double (round_sig6 (weight c)), data = 0\<rparr>"

section \<open>Concrete networks and inputs\<close>

text \<open>
  One input and one output neuron joined by one connection of weight \<open>w\<close>, as the
  constructor builds it.
\<close>

definition net_1_1 :: "real \<Rightarrow> ANN" where
  "net_1_1 w =
     \<lparr>num_input = 1, num_hidden = 0, num_output = 1, num_iPLUSh = 1,
      total_num_neurons = 2, neurons = [Neuron_ctor INPUT_N, Neuron_ctor OUTPUT_N],
      total_num_connections = 1,
      connections = [\<lparr>source_neuron_idx = 0, target_neuron_idx = 1, weight = w, data = 0\<rparr>]\<rparr>"

text \<open>
  One input, one hidden and one output neuron in a chain with weights 100, with the three
  outputs and the two \<open>data\<close> fields as parameters.
\<close>

definition net_chain :: "real \<Rightarrow> real \<Rightarrow> real \<Rightarrow> real \<Rightarrow> real \<Rightarrow> ANN" where
  "net_chain x h y d0 d1 =
     \<lparr>num_input = 1, num_hidden = 1, num_output = 1, num_iPLUSh = 2,
      total_num_neurons = 3,
      neurons = [\<lparr>input_sum = 0, output_val = x, type = INPUT_N\<rparr>,
                 \<lparr>input_sum = 0, output_val = h, type = HIDDEN_N\<rparr>,
                 \<lparr>input_sum = 0, output_val = y, type = OUTPUT_N\<rparr>],
      total_num_connections = 2,
      connections = [\<lparr>source_neuron_idx = 0, target_neuron_idx = 1, weight = 100, data = d0\<rparr>,
                     \<lparr>source_neuron_idx = 1, target_neuron_idx = 2, weight = 100, data = d1\<rparr>]\<rparr>"

text \<open>
  Two input, two hidden and one output neuron, fully connected in the order of
  \<open>fullyConnectFF\<close> with the six weights \<open>ws\<close>; and the same network before any
  connection is made.
\<close>

definition net_221 :: "real list \<Rightarrow> ANN" where
  "net_221 ws =
     \<lparr>num_input = 2, num_hidden = 2, num_output = 1, num_iPLUSh = 4, total_num_neurons = 5,
      neurons = [Neuron_ctor INPUT_N, Neuron_ctor INPUT_N, Neuron_ctor HIDDEN_N,
                 Neuron_ctor HIDDEN_N, Neuron_ctor OUTPUT_N],
      total_num_connections = 6,
      connections =
        map (\<lambda>((s, t), w).
               \<lparr>source_neuron_idx = s, target_neuron_idx = t, weight = w, data = 0\<rparr>)
            (zip [(0, 2), (0, 3), (1, 2), (1, 3), (2, 4), (3, 4)] ws)\<rparr>"

definition net_221_bare :: ANN where
  "net_221_bare = (net_221 [])\<lparr>total_num_connections := 0\<rparr>"

text \<open>
  255 input, 256 hidden and one output neuron without connections: fully connected it
  has \<open>256 * (255 + 1) = 65536\<close> connections.
\<close>

definition net_big :: ANN where
  "net_big =
     \<lparr>num_input = 255, num_hidden = 256, num_output = 1, num_iPLUSh = 511,
      total_num_neurons = 512,
      neurons = map (\<lambda>n. Neuron_ctor (ctor_ntype 255 511 n)) [0..<512],
      total_num_connections = 0, connections = []\<rparr>"

text \<open>
  What the constructor builds from the counts \<open>[65535, 0, 2]\<close> and \<open>[65535, 1, 1]\<close>:
  the sums of the counts do not fit the 16-bit fields.
\<close>

definition net_wrapped :: ANN where
  "net_wrapped =
     \<lparr>num_input = 65535, num_hidden = 0, num_output = 2, num_iPLUSh = 65535,
      total_num_neurons = 1, neurons = [Neuron_ctor INPUT_N], total_num_connections = 0,
      connections = []\<rparr>"

definition net_wrapped_ff :: ANN where
  "net_wrapped_ff =
     \<lparr>num_input = 65535, num_hidden = 1, num_output = 1, num_iPLUSh = 0,
      total_num_neurons = 1, neurons = [Neuron_ctor INPUT_N], total_num_connections = 0,
      connections = []\<rparr>"

text \<open>
  What the constructor builds from the counts \<open>[1, 1]\<close> and one connection from index 2
  to index 0.
\<close>

definition net_oob :: ANN where
  "net_oob =
     \<lparr>num_input = 1, num_hidden = 0, num_output = 1, num_iPLUSh = 1,
      total_num_neurons = 2, neurons = [Neuron_ctor INPUT_N, Neuron_ctor OUTPUT_N],
      total_num_connections = 1,
      connections = [\<lparr>source_neuron_idx = 2, target_neuron_idx = 0, weight = 1, data = 0\<rparr>]\<rparr>"

text \<open>
  What the constructor builds from the counts \<open>[1, 1]\<close> and one connection from index 0
  to index 2; and a file that describes two neurons and one connection from index 0 to
  index 3, with the network that \<open>deserialize\<close> restores from it.
\<close>

definition net_oob_target :: ANN where
  "net_oob_target =
     \<lparr>num_input = 1, num_hidden = 0, num_output = 1, num_iPLUSh = 1,
      total_num_neurons = 2, neurons = [Neuron_ctor INPUT_N, Neuron_ctor OUTPUT_N],
      total_num_connections = 1,
      connections = [\<lparr>source_neuron_idx = 0, target_neuron_idx = 2, weight = 1, data = 0\<rparr>]\<rparr>"

definition file_edge_0_3 :: "token list" where
  "file_edge_0_3 =
     [Int_tok 1, Int_tok 0, Int_tok 1, Int_tok 1, Int_tok 2, Int_tok 0, Int_tok 1,
      Int_tok 1, Int_tok 0, Int_tok 3, Int_tok 1]"

definition net_edge_0_3 :: ANN where
  "net_edge_0_3 =
     \<lparr>num_input = 1, num_hidden = 0, num_output = 1, num_iPLUSh = 1,
      total_num_neurons = 2, neurons = [Neuron_ctor INPUT_N, Neuron_ctor OUTPUT_N],
      total_num_connections = 1,
      connections = [\<lparr>source_neuron_idx = 0, target_neuron_idx = 3, weight = 1, data = 0\<rparr>]\<rparr>"

text \<open>
  A file whose header announces five output neurons, one neuron in all and no
  connection, and the network that \<open>deserialize\<close> restores from it.
\<close>

definition file_bad_header :: "token list" where
  "file_bad_header =
     [Int_tok 0, Int_tok 0, Int_tok 5, Int_tok 0, Int_tok 1, Int_tok 1, Int_tok 0]"

definition net_bad_header :: ANN where
  "net_bad_header =
     \<lparr>num_input = 0, num_hidden = 0, num_output = 5, num_iPLUSh = 0,
      total_num_neurons = 1, neurons = [Neuron_ctor OUTPUT_N], total_num_connections = 0,
      connections = []\<rparr>"

text \<open>
  Three runs of \<open>rand()\<close> with \<open>RAND_MAX = 2147483647\<close>: one returns \<open>RAND_MAX\<close> each
  time, one returns 1 each time, and one starts with the six values that the generator
  of the GNU C library returns first when it has not been seeded.
\<close>

definition rand_top :: "nat \<Rightarrow> nat" where
  "rand_top j = 2147483647"

definition rand_low :: "nat \<Rightarrow> nat" where
  "rand_low j = 1"

definition rand_run :: "nat \<Rightarrow> nat" where
  "rand_run j =
     (if j < 6
      then [1804289383, 846930886, 1681692777, 1714636915, 1957747793, 424238335] ! j
      else 0)"

text \<open>
  The weights that \<open>randomizeW\<close> over -1 and 1 computes from these six values
  (\<open>0.680375434309419\<close>, \<open>-0.211234146361814\<close> and so on, as exact fractions); the
  six-digit texts written for them; and the doubles nearest to these texts, which are
  the weights read back.
\<close>

definition drawn_weights :: "real list" where
  "drawn_weights =
     [3064138552427939 / 4503599627370496,
      - (475657011421495 / 2251799813685248),
      637482779314067 / 1125899906842624, 672027211777641 / 1125899906842624,
      1853894887812151 / 2251799813685248,
      - (5448430162196131 / 9007199254740992)]"

definition written_weights :: "real list" where
  "written_weights =
     [680375 / 1000000, - (211234 / 1000000), 566198 / 1000000,
      596880 / 1000000, 823295 / 1000000, - (604897 / 1000000)]"

definition restored_weights :: "real list" where
  "restored_weights =
     [3064136596472201 / 4503599627370496,
      - (7610506909503835 / 36028797018963968),
      39842642215905 / 70368744177664, 5376217091169803 / 9007199254740992,
      7415582110431985 / 9007199254740992,
      - (2724213903797531 / 4503599627370496)]"

text \<open>
  The double nearest to \<open>0.1\<close>, and the weight that \<open>randomizeW\<close> over -3 and that
  double computes when \<open>rand()\<close> returns \<open>RAND_MAX\<close>.
\<close>

definition tenth_double :: real where
  "tenth_double = 3602879701896397 / 36028797018963968"

definition above_tenth :: real where
  "above_tenth = 225179981368525 / 2251799813685248"

text \<open>The double nearest to \<open>1e308\<close>.\<close>

definition huge_double :: real where
  "huge_double =
     100000000000000001097906362944045541740492309677311846336810682903157585404911491537163328978494688899061249669721172515611590283743140088328307009198146046031271664502933027185697489699588559043338384466165001178426897626212945177628091195786707458122783970171784415105291802893207873272974885715430223118336"

section \<open>The loops\<close>

lemma setInput_loop_length:
  "setInput_loop idx inputs ns = Some ns' \<Longrightarrow> length ns' = length ns"
  by (induction idx arbitrary: ns) (auto split: if_splits)

lemma setInput_loop_Some:
  "\<forall>n\<in>set idx. n < length ns \<and> n < length inputs \<Longrightarrow>
   \<exists>ns'. setInput_loop idx inputs ns = Some ns' \<and> length ns' = length ns \<and>
     (\<forall>n<length ns. ns' ! n =
        (if n \<in> set idx then (ns ! n)\<lparr>output_val := inputs ! n\<rparr> else ns ! n))"
proof (induction idx arbitrary: ns)
  case Nil
  then show ?case by simp
next
  case (Cons i idx)
  let ?ns1 = "ns[i := (ns ! i)\<lparr>output_val := inputs ! i\<rparr>]"
  from Cons.prems have i: "i < length ns" "i < length inputs" by auto
  from Cons.prems have "\<forall>n\<in>set idx. n < length ?ns1 \<and> n < length inputs" by auto
  from Cons.IH [OF this] obtain ns' where
    s: "setInput_loop idx inputs ?ns1 = Some ns'" and l: "length ns' = length ?ns1" and
    v: "\<forall>n<length ?ns1. ns' ! n =
        (if n \<in> set idx then (?ns1 ! n)\<lparr>output_val := inputs ! n\<rparr> else ?ns1 ! n)"
    by blast
  have "setInput_loop (i # idx) inputs ns = Some ns'" using i s by simp
  moreover have "length ns' = length ns" using l by simp
  moreover have "\<forall>n<length ns. ns' ! n =
        (if n \<in> set (i # idx) then (ns ! n)\<lparr>output_val := inputs ! n\<rparr> else ns ! n)"
  proof (intro allI impI)
    fix n assume n: "n < length ns"
    then have "ns' ! n = (if n \<in> set idx then (?ns1 ! n)\<lparr>output_val := inputs ! n\<rparr> else ?ns1 ! n)"
      using v by simp
    then show "ns' ! n =
        (if n \<in> set (i # idx) then (ns ! n)\<lparr>output_val := inputs ! n\<rparr> else ns ! n)"
      using n i by (cases "n = i") auto
  qed
  ultimately show ?case by blast
qed

lemma setInput_loop_None:
  "\<exists>n\<in>set idx. \<not> (n < length ns \<and> n < length inputs) \<Longrightarrow>
   setInput_loop idx inputs ns = None"
  by (induction idx arbitrary: ns) auto

lemma setInput_out_of_range:
  "length inputs = unat (num_input net) \<Longrightarrow> length (neurons net) < unat (num_input net) \<Longrightarrow>
   setInput net inputs = None"
proof -
  assume a: "length inputs = unat (num_input net)" and b: "length (neurons net) < unat (num_input net)"
  have "\<exists>n\<in>set [0..<unat (num_input net)]. \<not> (n < length (neurons net) \<and> n < length inputs)"
    using b by (intro bexI [of _ "length (neurons net)"]) auto
  from setInput_loop_None [OF this] show ?thesis using a by (simp add: setInput_def)
qed

lemma getOutput_loop_Some:
  "\<forall>n\<in>set idx. n < length ns \<Longrightarrow>
   getOutput_loop idx ns out = Some (out @ map (\<lambda>n. output_val (ns ! n)) idx)"
  by (induction idx arbitrary: out) auto

lemma getOutput_loop_None:
  "\<exists>n\<in>set idx. \<not> n < length ns \<Longrightarrow> getOutput_loop idx ns out = None"
  by (induction idx arbitrary: out) auto

lemma getOutput_Some:
  "unat (total_num_neurons net) \<le> length (neurons net) \<Longrightarrow>
   getOutput net = Some (map (\<lambda>n. output_val (neurons net ! n))
                          [unat (num_iPLUSh net)..<unat (total_num_neurons net)])"
  unfolding getOutput_def by (subst getOutput_loop_Some) auto

lemma activate_connections_frame:
  "activate_connections cs ns = Some (cs', ns') \<Longrightarrow>
   length ns' = length ns \<and>
   map output_val ns' = map output_val ns \<and>
   map type ns' = map type ns \<and>
   length cs' = length cs \<and>
   map source_neuron_idx cs' = map source_neuron_idx cs \<and>
   map target_neuron_idx cs' = map target_neuron_idx cs \<and>
   map weight cs' = map weight cs"
proof (induction cs arbitrary: ns cs' ns')
  case Nil
  then show ?case by simp
next
  case (Cons conn rest)
  let ?s = "unat (source_neuron_idx conn)"
  let ?t = "unat (target_neuron_idx conn)"
  let ?d = "weight conn * output_val (ns ! ?s)"
  let ?ns1 = "ns[?t := (ns ! ?t)\<lparr>input_sum := input_sum (ns ! ?t) + ?d\<rparr>]"
  from Cons.prems obtain cs1 where
    ok: "?s < length ns" "?t < length ns" and
    r: "activate_connections rest ?ns1 = Some (cs1, ns')" and
    c: "cs' = conn\<lparr>data := ?d\<rparr> # cs1"
    by (auto simp: Let_def split: if_splits option.splits)
  have o: "map output_val ?ns1 = map output_val ns"
    using ok by (simp add: map_update list_update_same_conv)
  have t: "map type ?ns1 = map type ns"
    using ok by (simp add: map_update list_update_same_conv)
  from Cons.IH [OF r] o t c show ?case by simp
qed

lemma activate_connections_defined:
  "\<forall>c\<in>set cs. unat (source_neuron_idx c) < length ns \<and> unat (target_neuron_idx c) < length ns
   \<Longrightarrow> \<exists>cs' ns'. activate_connections cs ns = Some (cs', ns')"
proof (induction cs arbitrary: ns)
  case Nil
  then show ?case by simp
next
  case (Cons conn rest)
  let ?t = "unat (target_neuron_idx conn)"
  let ?d = "weight conn * output_val (ns ! unat (source_neuron_idx conn))"
  let ?ns1 = "ns[?t := (ns ! ?t)\<lparr>input_sum := input_sum (ns ! ?t) + ?d\<rparr>]"
  from Cons.prems have
    "\<forall>c\<in>set rest. unat (source_neuron_idx c) < length ?ns1 \<and> unat (target_neuron_idx c) < length ?ns1"
    by simp
  from Cons.IH [OF this] obtain cs1 ns1 where "activate_connections rest ?ns1 = Some (cs1, ns1)"
    by blast
  then show ?case using Cons.prems by (simp add: Let_def)
qed

lemma activate_connections_in_range:
  "activate_connections cs ns = Some (cs', ns') \<Longrightarrow>
   \<forall>c\<in>set cs. unat (source_neuron_idx c) < length ns \<and> unat (target_neuron_idx c) < length ns"
proof (induction cs arbitrary: ns cs' ns')
  case Nil
  then show ?case by simp
next
  case (Cons conn rest)
  let ?s = "unat (source_neuron_idx conn)"
  let ?t = "unat (target_neuron_idx conn)"
  let ?d = "weight conn * output_val (ns ! ?s)"
  let ?ns1 = "ns[?t := (ns ! ?t)\<lparr>input_sum := input_sum (ns ! ?t) + ?d\<rparr>]"
  from Cons.prems obtain cs1 where
    ok: "?s < length ns" "?t < length ns" and
    r: "activate_connections rest ?ns1 = Some (cs1, ns')"
    by (auto simp: Let_def split: if_splits option.splits)
  from Cons.IH [OF r] ok show ?case by simp
qed

lemma activate_connections_same_edge:
  "activate_connections cs ns = Some (cs', ns') \<Longrightarrow> list_all2 same_edge cs cs'"
proof (induction cs arbitrary: ns cs' ns')
  case Nil
  then show ?case by simp
next
  case (Cons conn rest)
  let ?s = "unat (source_neuron_idx conn)"
  let ?t = "unat (target_neuron_idx conn)"
  let ?d = "weight conn * output_val (ns ! ?s)"
  let ?ns1 = "ns[?t := (ns ! ?t)\<lparr>input_sum := input_sum (ns ! ?t) + ?d\<rparr>]"
  from Cons.prems obtain cs1 where
    r: "activate_connections rest ?ns1 = Some (cs1, ns')" and
    c: "cs' = conn\<lparr>data := ?d\<rparr> # cs1"
    by (auto simp: Let_def split: if_splits option.splits)
  from Cons.IH [OF r] c show ?case by (simp add: same_edge_def)
qed

lemma activate_neurons_length:
  "activate_neurons idx ns = Some ns' \<Longrightarrow> length ns' = length ns"
  by (induction idx arbitrary: ns) (auto split: if_splits)

lemma activate_neurons_Some:
  "\<forall>n\<in>set idx. n < length ns \<Longrightarrow> distinct idx \<Longrightarrow>
   \<exists>ns'. activate_neurons idx ns = Some ns' \<and> length ns' = length ns \<and>
     (\<forall>n<length ns. ns' ! n = (if n \<in> set idx then activate_neuron (ns ! n) else ns ! n))"
proof (induction idx arbitrary: ns)
  case Nil
  then show ?case by simp
next
  case (Cons i idx)
  let ?ns1 = "ns[i := activate_neuron (ns ! i)]"
  from Cons.prems have i: "i < length ns" "i \<notin> set idx" by auto
  from Cons.prems have "\<forall>n\<in>set idx. n < length ?ns1" "distinct idx" by auto
  from Cons.IH [OF this] obtain ns' where
    s: "activate_neurons idx ?ns1 = Some ns'" and l: "length ns' = length ?ns1" and
    v: "\<forall>n<length ?ns1. ns' ! n = (if n \<in> set idx then activate_neuron (?ns1 ! n) else ?ns1 ! n)"
    by blast
  have "activate_neurons (i # idx) ns = Some ns'" using i s by simp
  moreover have "length ns' = length ns" using l by simp
  moreover have "\<forall>n<length ns. ns' ! n =
        (if n \<in> set (i # idx) then activate_neuron (ns ! n) else ns ! n)"
  proof (intro allI impI)
    fix n assume n: "n < length ns"
    then have "ns' ! n = (if n \<in> set idx then activate_neuron (?ns1 ! n) else ?ns1 ! n)"
      using v by simp
    then show "ns' ! n = (if n \<in> set (i # idx) then activate_neuron (ns ! n) else ns ! n)"
      using n i by (cases "n = i") auto
  qed
  ultimately show ?case by blast
qed

lemma activate_neurons_None:
  "\<exists>n\<in>set idx. \<not> n < length ns \<Longrightarrow> activate_neurons idx ns = None"
  by (induction idx arbitrary: ns) auto

lemma activate_neurons_SomeD:
  assumes "activate_neurons idx ns = Some ns'" and "distinct idx"
  shows "length ns' = length ns \<and> (\<forall>n\<in>set idx. n < length ns) \<and>
     (\<forall>n<length ns. ns' ! n = (if n \<in> set idx then activate_neuron (ns ! n) else ns ! n))"
proof -
  have ok: "\<forall>n\<in>set idx. n < length ns"
  proof (rule ccontr)
    assume "\<not> (\<forall>n\<in>set idx. n < length ns)"
    then have "\<exists>n\<in>set idx. \<not> n < length ns" by blast
    from activate_neurons_None [OF this] assms(1) show False by simp
  qed
  from activate_neurons_Some [OF ok assms(2)] assms(1) ok show ?thesis by auto
qed

lemma activate_SomeD:
  assumes "activate net = Some net'"
  shows "\<exists>cs ns ns'. activate_connections (connections net) (neurons net) = Some (cs, ns) \<and>
     activate_neurons [unat (num_input net)..<unat (total_num_neurons net)] ns = Some ns' \<and>
     net' = net\<lparr>connections := cs, neurons := ns'\<rparr>"
  using assms by (auto simp: activate_def split: option.splits prod.splits)

lemma activate_defined:
  assumes "length (neurons net) = unat (total_num_neurons net)"
    and "\<forall>c\<in>set (connections net).
           unat (source_neuron_idx c) < length (neurons net) \<and>
           unat (target_neuron_idx c) < length (neurons net)"
  shows "\<exists>net'. activate net = Some net'"
proof -
  from activate_connections_defined [OF assms(2)] obtain cs ns where
    c: "activate_connections (connections net) (neurons net) = Some (cs, ns)" by blast
  from activate_connections_frame [OF c] have l: "length ns = length (neurons net)" by simp
  have "\<forall>n\<in>set [unat (num_input net)..<unat (total_num_neurons net)]. n < length ns"
    using l assms(1) by simp
  from activate_neurons_Some [OF this] obtain ns' where
    "activate_neurons [unat (num_input net)..<unat (total_num_neurons net)] ns = Some ns'"
    by auto
  with c show ?thesis by (simp add: activate_def)
qed

section \<open>Rounding to the nearest double\<close>

lemma round_half_even_ge: "of_int k \<le> y \<Longrightarrow> k \<le> round_half_even y"
proof -
  assume "of_int k \<le> y"
  then have "k \<le> \<lfloor>y\<rfloor>" by (simp add: le_floor_iff)
  then show ?thesis by (simp add: round_half_even_def Let_def)
qed

lemma round_half_even_le: "y \<le> of_int k \<Longrightarrow> round_half_even y \<le> k"
proof -
  assume a: "y \<le> of_int k"
  then have f: "\<lfloor>y\<rfloor> \<le> k" by (simp add: floor_le_iff)
  show ?thesis
  proof (cases "y = of_int \<lfloor>y\<rfloor>")
    case True
    then have "y - of_int \<lfloor>y\<rfloor> = 0" by simp
    then show ?thesis using f by (simp add: round_half_even_def Let_def)
  next
    case False
    then have "of_int \<lfloor>y\<rfloor> < y" using of_int_floor_le [of y] by linarith
    then have "of_int \<lfloor>y\<rfloor> < (of_int k :: real)" using a by linarith
    then have "\<lfloor>y\<rfloor> + 1 \<le> k" by simp
    then show ?thesis using f by (simp add: round_half_even_def Let_def)
  qed
qed

lemma round_mult_ge:
  fixes x u :: real
  assumes "0 < u" and "of_int k * u \<le> x"
  shows "of_int k * u \<le> of_int (round_half_even (x / u)) * u"
proof -
  have "of_int k \<le> x / u" using assms by (simp add: le_divide_eq)
  from round_half_even_ge [OF this]
  have "(of_int k :: real) \<le> of_int (round_half_even (x / u))" by simp
  then show ?thesis using assms(1) by simp
qed

lemma round_mult_le:
  fixes x u :: real
  assumes "0 < u" and "x \<le> of_int k * u"
  shows "of_int (round_half_even (x / u)) * u \<le> of_int k * u"
proof -
  have "x / u \<le> of_int k" using assms by (simp add: divide_le_eq)
  from round_half_even_le [OF this]
  have "(of_int (round_half_even (x / u)) :: real) \<le> of_int k" by simp
  then show ?thesis using assms(1) by simp
qed

lemma powi_le_D:
  fixes b :: real
  assumes "b powi m \<le> b powi n" and "1 < b"
  shows "m \<le> n"
proof (rule ccontr)
  assume "\<not> m \<le> n"
  then have "n < m" by simp
  from power_int_strict_increasing [OF this assms(2)] assms(1) show False by linarith
qed

lemma powi_less_D:
  fixes b :: real
  assumes "b powi m < b powi n" and "1 < b"
  shows "m < n"
proof (rule ccontr)
  assume "\<not> m < n"
  then have "n \<le> m" by simp
  then have "b powi n \<le> b powi m" using assms(2) by (intro power_int_increasing) simp_all
  with assms(1) show False by linarith
qed

lemma floor_log2_eq:
  fixes x :: real
  assumes "2 powi k \<le> x" and "x < 2 powi (k + 1)"
  shows "\<lfloor>log 2 x\<rfloor> = k"
proof -
  have "0 < (2::real) powi k" by simp
  with assms(1) have p: "0 < x" by linarith
  have "(2::real) powr (of_int k) = 2 powi k" by (simp add: powr_real_of_int')
  moreover have "(2::real) powr (of_int k + 1) = 2 powi (k + 1)"
    using powr_real_of_int' [of 2 "k + 1"] by simp
  ultimately show ?thesis
    using assms floor_log_eq_powr_iff [OF p, of 2 k] by simp
qed

lemma floor_log2_bounds:
  fixes x :: real
  assumes "x \<noteq> 0"
  shows "2 powi \<lfloor>log 2 \<bar>x\<bar>\<rfloor> \<le> \<bar>x\<bar>" and "\<bar>x\<bar> < 2 powi (\<lfloor>log 2 \<bar>x\<bar>\<rfloor> + 1)"
proof -
  let ?k = "\<lfloor>log 2 \<bar>x\<bar>\<rfloor>"
  have p: "0 < \<bar>x\<bar>" using assms by simp
  have a: "(2::real) powr (of_int ?k) = 2 powi ?k" by (simp add: powr_real_of_int')
  have b: "(2::real) powr (of_int ?k + 1) = 2 powi (?k + 1)"
    using powr_real_of_int' [of 2 "?k + 1"] by simp
  have "2 powr (of_int ?k) \<le> \<bar>x\<bar> \<and> \<bar>x\<bar> < 2 powr (of_int ?k + 1)"
    using floor_log_eq_powr_iff [OF p, of 2 ?k] by simp
  then show "2 powi ?k \<le> \<bar>x\<bar>" and "\<bar>x\<bar> < 2 powi (?k + 1)"
    using a b by simp_all
qed

lemma floor_log2_mono:
  fixes a x :: real
  assumes "a \<noteq> 0" and "\<bar>a\<bar> \<le> \<bar>x\<bar>"
  shows "\<lfloor>log 2 \<bar>a\<bar>\<rfloor> \<le> \<lfloor>log 2 \<bar>x\<bar>\<rfloor>"
  using assms by (intro floor_mono) simp

lemma ulp_exp_mono:
  fixes a x :: real
  assumes "a \<noteq> 0" and "\<bar>a\<bar> \<le> \<bar>x\<bar>"
  shows "ulp_exp a \<le> ulp_exp x"
  using floor_log2_mono [OF assms] by (simp add: ulp_exp_def)

lemma powi_2_split:
  assumes "j \<le> k"
  shows "(2::real) powi k = of_int (2 ^ nat (k - j)) * 2 powi j"
proof -
  obtain n where n: "k - j = int n" using assms by (metis diff_ge_0_iff_ge nonneg_int_cases)
  then have "(2::real) powi k = 2 powi (int n + j)" by (simp add: algebra_simps)
  also have "\<dots> = 2 powi (int n) * 2 powi j"
    by (rule power_int_add) simp
  finally show ?thesis using n by (simp add: power_int_of_nat)
qed

lemma round_double_0: "round_double 0 = 0"
  by (simp add: round_double_def)

lemma round_double_bound_multiple:
  assumes "ulp_exp x \<le> k" and "\<bar>x\<bar> \<le> of_int m * 2 powi k"
  shows "\<bar>round_double x\<bar> \<le> of_int m * 2 powi k"
proof (cases "x = 0")
  case True
  then show ?thesis using assms(2) by (simp add: round_double_def)
next
  case False
  let ?j = "ulp_exp x"
  let ?u = "(2::real) powi ?j"
  let ?K = "m * 2 ^ nat (k - ?j)"
  have u: "0 < ?u" by simp
  have "of_int m * (2::real) powi k = of_int m * (of_int (2 ^ nat (k - ?j)) * ?u)"
    using powi_2_split [OF assms(1)] by simp
  then have k: "of_int m * (2::real) powi k = of_int ?K * ?u" by simp
  have rd: "round_double x = of_int (round_half_even (x / ?u)) * ?u"
    using False by (simp add: round_double_def Let_def)
  have "x \<le> of_int ?K * ?u" using assms(2) k by linarith
  from round_mult_le [OF u this] have up: "round_double x \<le> of_int m * 2 powi k"
    unfolding rd k .
  have n: "of_int (- ?K) * ?u = - (of_int m * 2 powi k)" unfolding k by simp
  have "of_int (- ?K) * ?u \<le> x" unfolding n using assms(2) by linarith
  from round_mult_ge [OF u this] have lo: "- (of_int m * 2 powi k) \<le> round_double x"
    unfolding rd n .
  from up lo show ?thesis by linarith
qed

lemma round_double_bound:
  assumes "- 1074 \<le> k" and "\<bar>x\<bar> \<le> 2 powi k"
  shows "\<bar>round_double x\<bar> \<le> 2 powi k"
proof (cases "x = 0")
  case True
  then show ?thesis by (simp add: round_double_def)
next
  case False
  let ?e = "\<lfloor>log 2 \<bar>x\<bar>\<rfloor>"
  have "2 powi ?e \<le> (2::real) powi k"
    using floor_log2_bounds(1) [OF False] assms(2) by linarith
  then have "?e \<le> k" by (rule powi_le_D) simp
  then have jk: "ulp_exp x \<le> k" using assms(1) by (simp add: ulp_exp_def)
  from round_double_bound_multiple [OF jk, of 1] assms(2) show ?thesis by simp
qed

lemma round_double_nonneg: "0 \<le> x \<Longrightarrow> 0 \<le> round_double x"
proof (cases "x = 0")
  case True
  then show ?thesis by (simp add: round_double_def)
next
  case False
  assume "0 \<le> x"
  then have "of_int 0 * 2 powi (ulp_exp x) \<le> x" by simp
  from round_mult_ge [OF _ this] show ?thesis
    using False by (simp add: round_double_def Let_def)
qed

lemma round_double_multiple:
  assumes "x \<noteq> 0" and "a = of_int m * 2 powi j" and "ulp_exp x \<le> j" and "a \<le> x"
  shows "a \<le> round_double x"
proof -
  let ?u = "(2::real) powi (ulp_exp x)"
  have "a = of_int m * (of_int (2 ^ nat (j - ulp_exp x)) * ?u)"
    using assms(2) powi_2_split [OF assms(3)] by simp
  then have a: "a = of_int (m * 2 ^ nat (j - ulp_exp x)) * ?u" by simp
  have u: "0 < ?u" by simp
  have "of_int (m * 2 ^ nat (j - ulp_exp x)) * ?u \<le> x" using a assms(4) by simp
  from round_mult_ge [OF u this] show ?thesis
    using a assms(1) by (simp add: round_double_def Let_def)
qed

lemma round_double_ge:
  assumes a: "round_double a = a" and ax: "a \<le> x"
  shows "a \<le> round_double x"
proof (cases "a \<le> 0 \<and> 0 \<le> x")
  case True
  then show ?thesis using round_double_nonneg [of x] by linarith
next
  case False
  then have a0: "a \<noteq> 0" and x0: "x \<noteq> 0" using ax by auto
  from a a0 have m: "a = of_int (round_half_even (a / 2 powi (ulp_exp a))) * 2 powi (ulp_exp a)"
    by (simp add: round_double_def Let_def)
  show ?thesis
  proof (cases "ulp_exp x \<le> ulp_exp a")
    case True
    from round_double_multiple [OF x0 m True ax] show ?thesis .
  next
    case lt: False
    have pos: "0 < a"
    proof (rule ccontr)
      assume "\<not> 0 < a"
      then have "\<bar>x\<bar> \<le> \<bar>a\<bar>" using False ax by auto
      from ulp_exp_mono [OF x0 this] lt show False by simp
    qed
    let ?ea = "\<lfloor>log 2 \<bar>a\<bar>\<rfloor>" and ?ex = "\<lfloor>log 2 \<bar>x\<bar>\<rfloor>"
    from lt have jx: "ulp_exp x = ?ex - 52" and e: "?ea < ?ex"
      by (auto simp: ulp_exp_def max_def split: if_splits)
    have "a < 2 powi (?ea + 1)" using floor_log2_bounds(2) [OF a0] pos by simp
    also have "\<dots> \<le> 2 powi ?ex" using e by (intro power_int_increasing) simp_all
    finally have 1: "a < 2 powi ?ex" .
    have 2: "2 powi ?ex \<le> x" using floor_log2_bounds(1) [OF x0] pos ax by simp
    have 3: "2 powi ?ex = of_int 1 * (2::real) powi ?ex" by simp
    have 4: "ulp_exp x \<le> ?ex" using jx by simp
    from round_double_multiple [OF x0 3 4 2] 1 show ?thesis by linarith
  qed
qed

lemma double_of_bound:
  assumes "- 1074 \<le> k" and "k \<le> 1023" and "\<bar>x\<bar> \<le> 2 powi k"
  shows "double_of x = Some (round_double x)" and "\<bar>round_double x\<bar> \<le> 2 powi k"
proof -
  show b: "\<bar>round_double x\<bar> \<le> 2 powi k" by (rule round_double_bound [OF assms(1,3)])
  have "(2::real) powi k < 2 powi 1024"
    using assms(2) by (intro power_int_strict_increasing) simp_all
  then have "\<bar>round_double x\<bar> < 2 ^ 1024" using b by simp
  then show "double_of x = Some (round_double x)" by (simp add: double_of_def)
qed

lemma round_double_eval:
  assumes "2 powi e \<le> \<bar>x\<bar>" and "\<bar>x\<bar> < 2 powi (e + 1)" and "- 1022 \<le> e"
  shows "round_double x = of_int (round_half_even (x / 2 powi (e - 52))) * 2 powi (e - 52)"
proof -
  have "\<lfloor>log 2 \<bar>x\<bar>\<rfloor> = e" using assms(1,2) by (rule floor_log2_eq)
  then have "ulp_exp x = e - 52" using assms(3) by (simp add: ulp_exp_def)
  moreover have "x \<noteq> 0"
  proof
    assume "x = 0"
    with assms(1) have "(2::real) powi e \<le> 0" by simp
    moreover have "0 < (2::real) powi e" by simp
    ultimately show False by linarith
  qed
  ultimately show ?thesis by (simp add: round_double_def Let_def)
qed

lemma double_of_eval:
  assumes "2 powi e \<le> \<bar>x\<bar>" and "\<bar>x\<bar> < 2 powi (e + 1)" and "- 1022 \<le> e" and "e \<le> 1022"
  shows "double_of x = Some (of_int (round_half_even (x / 2 powi (e - 52))) * 2 powi (e - 52))"
proof -
  have "\<bar>x\<bar> \<le> 2 powi (e + 1)" using assms(2) by simp
  from double_of_bound(1) [OF _ _ this] assms(3,4)
  have "double_of x = Some (round_double x)" by simp
  then show ?thesis by (simp only: round_double_eval [OF assms(1-3)])
qed

lemma double_of_0: "double_of 0 = Some 0"
  by (simp add: double_of_def round_double_def)

lemma is_doubleD: "is_double x \<Longrightarrow> round_double x = x \<and> \<bar>x\<bar> < 2 ^ 1024"
  by (auto simp: is_double_def double_of_def Let_def split: if_splits)

lemma round_double_1: "round_double 1 = 1"
  using round_double_eval [of 0 1] by (simp add: round_half_even_def power_int_minus)

lemma round_half_even_of_int: "round_half_even (of_int m) = m"
  by (simp add: round_half_even_def)

lemma round_double_of_multiple:
  assumes "y = of_int m * 2 powi (ulp_exp y)"
  shows "round_double y = y"
proof (cases "y = 0")
  case True
  then show ?thesis by (simp add: round_double_def)
next
  case False
  have "y / 2 powi (ulp_exp y) = of_int m"
    using assms by (metis nonzero_mult_div_cancel_right power_int_eq_0_iff zero_neq_numeral)
  then have "round_half_even (y / 2 powi (ulp_exp y)) = m"
    by (simp only: round_half_even_of_int)
  then show ?thesis using False assms by (simp add: round_double_def Let_def)
qed

lemma round_double_idem: "round_double (round_double x) = round_double x"
proof (cases "round_double x = 0")
  case True
  then show ?thesis by (simp add: round_double_def)
next
  case y0: False
  then have x0: "x \<noteq> 0" by (auto simp: round_double_def)
  let ?y = "round_double x"
  let ?e = "\<lfloor>log 2 \<bar>x\<bar>\<rfloor>" and ?ey = "\<lfloor>log 2 \<bar>?y\<bar>\<rfloor>"
  let ?j = "ulp_exp x" and ?jy = "ulp_exp ?y"
  let ?m = "round_half_even (x / 2 powi ?j)"
  have y: "?y = of_int ?m * 2 powi ?j" using x0 by (simp add: round_double_def Let_def)
  show ?thesis
  proof (cases "?jy \<le> ?j")
    case True
    have "?y = of_int ?m * (of_int (2 ^ nat (?j - ?jy)) * 2 powi ?jy)"
      using y powi_2_split [OF True] by simp
    then have "?y = of_int (?m * 2 ^ nat (?j - ?jy)) * 2 powi ?jy" by simp
    then show ?thesis by (rule round_double_of_multiple)
  next
    case False
    then have f: "\<not> max (?ey - 52) (- 1074) \<le> max (?e - 52) (- 1074)"
      unfolding ulp_exp_def .
    then have "max (?ey - 52) (- 1074) = ?ey - 52" by linarith
    then have jy: "?jy = ?ey - 52" by (simp only: ulp_exp_def)
    from f have ey: "?e < ?ey" and low: "- 1074 < ?ey" by linarith+
    let ?k = "max (?e + 1) (- 1074)"
    have "\<bar>x\<bar> < 2 powi (?e + 1)" using floor_log2_bounds(2) [OF x0] .
    also have "\<dots> \<le> 2 powi ?k" by (intro power_int_increasing) simp_all
    finally have "\<bar>x\<bar> \<le> 2 powi ?k" by simp
    from round_double_bound [OF _ this] have b: "\<bar>?y\<bar> \<le> 2 powi ?k" by simp
    have l: "2 powi ?ey \<le> \<bar>?y\<bar>" using floor_log2_bounds(1) [OF y0] .
    with b have "(2::real) powi ?ey \<le> 2 powi ?k" by linarith
    then have "?ey \<le> ?k" by (rule powi_le_D) simp
    with ey low have k: "?k = ?ey" by linarith
    from b l have a: "\<bar>?y\<bar> = 2 powi ?ey" unfolding k by linarith
    have "(2::real) powi ?ey = of_int (2 ^ nat (?ey - ?jy)) * 2 powi ?jy"
      using jy by (intro powi_2_split) simp
    with a have "?y = of_int (2 ^ nat (?ey - ?jy)) * 2 powi ?jy \<or>
                 ?y = of_int (- (2 ^ nat (?ey - ?jy))) * 2 powi ?jy"
      by (cases "0 \<le> ?y") simp_all
    then show ?thesis using round_double_of_multiple by blast
  qed
qed

lemma double_of_is_double: "double_of x = Some y \<Longrightarrow> is_double y"
proof -
  assume "double_of x = Some y"
  then have "y = round_double x" and "\<bar>y\<bar> < 2 ^ 1024"
    by (auto simp: double_of_def Let_def split: if_splits)
  then show ?thesis by (simp add: is_double_def double_of_def round_double_idem)
qed

lemma double_of_1: "double_of 1 = Some 1"
  using double_of_eval [of 0 1] by (simp add: round_half_even_def power_int_minus)

lemma is_double_half: "is_double (1 / 2)"
  using double_of_eval [of "- 1" "1 / 2"]
  by (simp add: is_double_def round_half_even_def power_int_minus)

lemma is_double_minus_1: "is_double (- 1)"
  using double_of_eval [of 0 "- 1"]
  by (simp add: is_double_def round_half_even_def power_int_minus)

section \<open>The weights drawn\<close>

lemma new_weight_defined:
  assumes "minv < maxv" and "round_double minv = minv"
    and "\<bar>minv\<bar> \<le> 2 ^ 900" and "\<bar>maxv\<bar> \<le> 2 ^ 900"
    and "0 < rand_max" and "rand_max \<le> 2 ^ 64" and "r \<le> rand_max"
  shows "\<exists>w. new_weight rand_max r minv maxv = Some w \<and> minv \<le> w"
proof -
  let ?d = "round_double (maxv - minv)" and ?x = "round_double (real r)"
  let ?m = "round_double (real rand_max)"
  let ?p = "round_double (?d * ?x)"
  let ?q = "round_double (?p / ?m)"
  let ?w = "round_double (?q + minv)"
  have p900: "(2::real) ^ 900 = 2 powi 900" by simp
  have "\<bar>maxv - minv\<bar> \<le> 2 * 2 ^ 900" using assms(3,4) by linarith
  also have "\<dots> = 2 powi 901" by simp
  finally have "\<bar>maxv - minv\<bar> \<le> 2 powi 901" .
  from double_of_bound [OF _ _ this] have
    d: "double_of (maxv - minv) = Some ?d" and db: "\<bar>?d\<bar> \<le> 2 powi 901"
    by simp_all
  have d0: "0 \<le> ?d" using assms(1) by (intro round_double_nonneg) simp
  have "real r \<le> 2 ^ 64" using assms(6,7)
    by (metis (mono_tags) le_trans of_nat_le_iff of_nat_numeral of_nat_power)
  then have "\<bar>real r\<bar> \<le> 2 powi 64" by simp
  from double_of_bound [OF _ _ this] have
    x: "double_of (real r) = Some ?x" and xb: "\<bar>?x\<bar> \<le> 2 powi 64"
    by simp_all
  have x0: "0 \<le> ?x" by (intro round_double_nonneg) simp
  have "real rand_max \<le> 2 ^ 64" using assms(6)
    by (metis (mono_tags) of_nat_le_iff of_nat_numeral of_nat_power)
  then have "\<bar>real rand_max\<bar> \<le> 2 powi 64" by simp
  from double_of_bound(1) [OF _ _ this] have m: "double_of (real rand_max) = Some ?m"
    by simp
  have "1 \<le> real rand_max" using assms(5) by simp
  from round_double_ge [OF round_double_1 this] have m1: "1 \<le> ?m" .
  have "?d * ?x \<le> 2 powi 901 * 2 powi 64"
    using db xb d0 x0 by (intro mult_mono) simp_all
  also have "\<dots> = 2 powi 965" by (simp add: power_int_add [symmetric] del: )
  finally have "\<bar>?d * ?x\<bar> \<le> 2 powi 965" using d0 x0 by simp
  from double_of_bound [OF _ _ this] have
    p: "double_of (?d * ?x) = Some ?p" and pb: "\<bar>?p\<bar> \<le> 2 powi 965"
    by simp_all
  have p0: "0 \<le> ?p" using d0 x0 by (intro round_double_nonneg) simp
  have pm0: "0 \<le> ?p / ?m" using p0 m1 by simp
  have "?p / ?m \<le> ?p / 1" using p0 m1 by (intro divide_left_mono) simp_all
  then have "\<bar>?p / ?m\<bar> \<le> 2 powi 965" using pb pm0 by linarith
  from double_of_bound [OF _ _ this] have
    q: "double_of (?p / ?m) = Some ?q" and qb: "\<bar>?q\<bar> \<le> 2 powi 965"
    by simp_all
  have q0: "0 \<le> ?q" using pm0 by (rule round_double_nonneg)
  have "(2::real) powi 965 + 2 powi 900 \<le> 2 powi 966" by simp
  then have "\<bar>?q + minv\<bar> \<le> 2 powi 966" using qb assms(3) p900 by linarith
  from double_of_bound(1) [OF _ _ this] have w: "double_of (?q + minv) = Some ?w" by simp
  have "minv \<le> ?q + minv" using q0 by simp
  from round_double_ge [OF assms(2) this] have "minv \<le> ?w" .
  moreover have "new_weight rand_max r minv maxv = Some ?w"
    using d x p m q w m1 by (simp add: new_weight_def)
  ultimately show ?thesis by blast
qed

lemma new_weight_is_double: "new_weight rand_max r minv maxv = Some w \<Longrightarrow> is_double w"
  by (auto simp: new_weight_def double_of_is_double split: option.splits if_splits)

lemma randomizeW_loop_Some:
  assumes "\<forall>j. \<exists>w. new_weight rand_max (rnd j) minv maxv = Some w"
  shows "\<exists>cs'. randomizeW_loop rand_max rnd k minv maxv cs = Some (cs', k + length cs) \<and>
     length cs' = length cs \<and>
     (\<forall>i<length cs. cs' ! i = (cs ! i)\<lparr>weight := weight (cs' ! i)\<rparr> \<and>
        new_weight rand_max (rnd (k + i)) minv maxv = Some (weight (cs' ! i)))"
proof (induction cs arbitrary: k)
  case Nil
  then show ?case by simp
next
  case (Cons c cs)
  from assms obtain w where w: "new_weight rand_max (rnd k) minv maxv = Some w" by blast
  from Cons.IH [of "Suc k"] obtain cs' where
    l: "randomizeW_loop rand_max rnd (Suc k) minv maxv cs = Some (cs', Suc k + length cs)" and
    n: "length cs' = length cs" and
    v: "\<forall>i<length cs. cs' ! i = (cs ! i)\<lparr>weight := weight (cs' ! i)\<rparr> \<and>
          new_weight rand_max (rnd (Suc k + i)) minv maxv = Some (weight (cs' ! i))"
    by blast
  let ?cs = "c\<lparr>weight := w\<rparr> # cs'"
  have "randomizeW_loop rand_max rnd k minv maxv (c # cs) = Some (?cs, k + length (c # cs))"
    using w l by simp
  moreover have "length ?cs = length (c # cs)" using n by simp
  moreover have "\<forall>i<length (c # cs). ?cs ! i = ((c # cs) ! i)\<lparr>weight := weight (?cs ! i)\<rparr> \<and>
        new_weight rand_max (rnd (k + i)) minv maxv = Some (weight (?cs ! i))"
  proof (intro allI impI)
    fix i assume i: "i < length (c # cs)"
    show "?cs ! i = ((c # cs) ! i)\<lparr>weight := weight (?cs ! i)\<rparr> \<and>
        new_weight rand_max (rnd (k + i)) minv maxv = Some (weight (?cs ! i))"
    proof (cases i)
      case 0
      then show ?thesis using w by simp
    next
      case (Suc j)
      with i have "j < length cs" by simp
      with v Suc show ?thesis by simp
    qed
  qed
  ultimately show ?case by blast
qed

lemma new_weight_run_0:
  "new_weight 2147483647 1804289383 (- 1) 1 = Some (3064138552427939 / 4503599627370496)"
proof -
  have d: "double_of 2 = Some 2"
    using double_of_eval [of 1 "2"]
    by (simp add: round_half_even_def Let_def power_int_minus)
  have x: "double_of 1804289383 = Some 1804289383"
    using double_of_eval [of 30 "1804289383"]
    by (simp add: round_half_even_def Let_def power_int_minus)
  have p: "double_of 3608578766 = Some 3608578766"
    using double_of_eval [of 31 "3608578766"]
    by (simp add: round_half_even_def Let_def power_int_minus)
  have m: "double_of 2147483647 = Some 2147483647"
    using double_of_eval [of 30 "2147483647"]
    by (simp add: round_half_even_def Let_def power_int_minus)
  have q: "double_of (3608578766 / 2147483647) = Some (7567738179798435 / 4503599627370496)"
    using double_of_eval [of 0 "3608578766 / 2147483647"]
    by (simp add: round_half_even_def Let_def power_int_minus)
  have w: "double_of (3064138552427939 / 4503599627370496) = Some (3064138552427939 / 4503599627370496)"
    using double_of_eval [of "- 1" "3064138552427939 / 4503599627370496"]
    by (simp add: round_half_even_def Let_def power_int_minus)
  show ?thesis by (simp add: new_weight_def d x p m q w)
qed

lemma new_weight_run_1:
  "new_weight 2147483647 846930886 (- 1) 1 = Some (- (475657011421495 / 2251799813685248))"
proof -
  have d: "double_of 2 = Some 2"
    using double_of_eval [of 1 "2"]
    by (simp add: round_half_even_def Let_def power_int_minus)
  have x: "double_of 846930886 = Some 846930886"
    using double_of_eval [of 29 "846930886"]
    by (simp add: round_half_even_def Let_def power_int_minus)
  have p: "double_of 1693861772 = Some 1693861772"
    using double_of_eval [of 30 "1693861772"]
    by (simp add: round_half_even_def Let_def power_int_minus)
  have m: "double_of 2147483647 = Some 2147483647"
    using double_of_eval [of 30 "2147483647"]
    by (simp add: round_half_even_def Let_def power_int_minus)
  have q: "double_of (1693861772 / 2147483647) = Some (1776142802263753 / 2251799813685248)"
    using double_of_eval [of "- 1" "1693861772 / 2147483647"]
    by (simp add: round_half_even_def Let_def power_int_minus)
  have w: "double_of (- (475657011421495 / 2251799813685248)) = Some (- (475657011421495 / 2251799813685248))"
    using double_of_eval [of "- 3" "- (475657011421495 / 2251799813685248)"]
    by (simp add: round_half_even_def Let_def power_int_minus)
  show ?thesis by (simp add: new_weight_def d x p m q w)
qed

lemma new_weight_run_2:
  "new_weight 2147483647 1681692777 (- 1) 1 = Some (637482779314067 / 1125899906842624)"
proof -
  have d: "double_of 2 = Some 2"
    using double_of_eval [of 1 "2"]
    by (simp add: round_half_even_def Let_def power_int_minus)
  have x: "double_of 1681692777 = Some 1681692777"
    using double_of_eval [of 30 "1681692777"]
    by (simp add: round_half_even_def Let_def power_int_minus)
  have p: "double_of 3363385554 = Some 3363385554"
    using double_of_eval [of 31 "3363385554"]
    by (simp add: round_half_even_def Let_def power_int_minus)
  have m: "double_of 2147483647 = Some 2147483647"
    using double_of_eval [of 30 "2147483647"]
    by (simp add: round_half_even_def Let_def power_int_minus)
  have q: "double_of (3363385554 / 2147483647) = Some (1763382686156691 / 1125899906842624)"
    using double_of_eval [of 0 "3363385554 / 2147483647"]
    by (simp add: round_half_even_def Let_def power_int_minus)
  have w: "double_of (637482779314067 / 1125899906842624) = Some (637482779314067 / 1125899906842624)"
    using double_of_eval [of "- 1" "637482779314067 / 1125899906842624"]
    by (simp add: round_half_even_def Let_def power_int_minus)
  show ?thesis by (simp add: new_weight_def d x p m q w)
qed

lemma new_weight_run_3:
  "new_weight 2147483647 1714636915 (- 1) 1 = Some (672027211777641 / 1125899906842624)"
proof -
  have d: "double_of 2 = Some 2"
    using double_of_eval [of 1 "2"]
    by (simp add: round_half_even_def Let_def power_int_minus)
  have x: "double_of 1714636915 = Some 1714636915"
    using double_of_eval [of 30 "1714636915"]
    by (simp add: round_half_even_def Let_def power_int_minus)
  have p: "double_of 3429273830 = Some 3429273830"
    using double_of_eval [of 31 "3429273830"]
    by (simp add: round_half_even_def Let_def power_int_minus)
  have m: "double_of 2147483647 = Some 2147483647"
    using double_of_eval [of 30 "2147483647"]
    by (simp add: round_half_even_def Let_def power_int_minus)
  have q: "double_of (3429273830 / 2147483647) = Some (1797927118620265 / 1125899906842624)"
    using double_of_eval [of 0 "3429273830 / 2147483647"]
    by (simp add: round_half_even_def Let_def power_int_minus)
  have w: "double_of (672027211777641 / 1125899906842624) = Some (672027211777641 / 1125899906842624)"
    using double_of_eval [of "- 1" "672027211777641 / 1125899906842624"]
    by (simp add: round_half_even_def Let_def power_int_minus)
  show ?thesis by (simp add: new_weight_def d x p m q w)
qed

lemma new_weight_run_4:
  "new_weight 2147483647 1957747793 (- 1) 1 = Some (1853894887812151 / 2251799813685248)"
proof -
  have d: "double_of 2 = Some 2"
    using double_of_eval [of 1 "2"]
    by (simp add: round_half_even_def Let_def power_int_minus)
  have x: "double_of 1957747793 = Some 1957747793"
    using double_of_eval [of 30 "1957747793"]
    by (simp add: round_half_even_def Let_def power_int_minus)
  have p: "double_of 3915495586 = Some 3915495586"
    using double_of_eval [of 31 "3915495586"]
    by (simp add: round_half_even_def Let_def power_int_minus)
  have m: "double_of 2147483647 = Some 2147483647"
    using double_of_eval [of 30 "2147483647"]
    by (simp add: round_half_even_def Let_def power_int_minus)
  have q: "double_of (3915495586 / 2147483647) = Some (4105694701497399 / 2251799813685248)"
    using double_of_eval [of 0 "3915495586 / 2147483647"]
    by (simp add: round_half_even_def Let_def power_int_minus)
  have w: "double_of (1853894887812151 / 2251799813685248) = Some (1853894887812151 / 2251799813685248)"
    using double_of_eval [of "- 1" "1853894887812151 / 2251799813685248"]
    by (simp add: round_half_even_def Let_def power_int_minus)
  show ?thesis by (simp add: new_weight_def d x p m q w)
qed

lemma new_weight_run_5:
  "new_weight 2147483647 424238335 (- 1) 1 = Some (- (5448430162196131 / 9007199254740992))"
proof -
  have d: "double_of 2 = Some 2"
    using double_of_eval [of 1 "2"]
    by (simp add: round_half_even_def Let_def power_int_minus)
  have x: "double_of 424238335 = Some 424238335"
    using double_of_eval [of 28 "424238335"]
    by (simp add: round_half_even_def Let_def power_int_minus)
  have p: "double_of 848476670 = Some 848476670"
    using double_of_eval [of 29 "848476670"]
    by (simp add: round_half_even_def Let_def power_int_minus)
  have m: "double_of 2147483647 = Some 2147483647"
    using double_of_eval [of 30 "2147483647"]
    by (simp add: round_half_even_def Let_def power_int_minus)
  have q: "double_of (848476670 / 2147483647) = Some (3558769092544861 / 9007199254740992)"
    using double_of_eval [of "- 2" "848476670 / 2147483647"]
    by (simp add: round_half_even_def Let_def power_int_minus)
  have w: "double_of (- (5448430162196131 / 9007199254740992)) = Some (- (5448430162196131 / 9007199254740992))"
    using double_of_eval [of "- 1" "- (5448430162196131 / 9007199254740992)"]
    by (simp add: round_half_even_def Let_def power_int_minus)
  show ?thesis by (simp add: new_weight_def d x p m q w)
qed

lemma new_weight_top:
  "new_weight 2147483647 2147483647 (- 1) 1 = Some 1"
proof -
  have d: "double_of 2 = Some 2"
    using double_of_eval [of 1 "2"]
    by (simp add: round_half_even_def Let_def power_int_minus)
  have x: "double_of 2147483647 = Some 2147483647"
    using double_of_eval [of 30 "2147483647"]
    by (simp add: round_half_even_def Let_def power_int_minus)
  have p: "double_of 4294967294 = Some 4294967294"
    using double_of_eval [of 31 "4294967294"]
    by (simp add: round_half_even_def Let_def power_int_minus)
  have w: "double_of 1 = Some 1"
    using double_of_eval [of 0 "1"]
    by (simp add: round_half_even_def Let_def power_int_minus)
  show ?thesis by (simp add: new_weight_def d x p w)
qed

lemma new_weight_top_tenth:
  "new_weight 2147483647 2147483647 (- 3) (3602879701896397 / 36028797018963968) = Some (225179981368525 / 2251799813685248)"
proof -
  have d: "double_of (111689270758788301 / 36028797018963968) = Some (6980579422424269 / 2251799813685248)"
    using double_of_eval [of 1 "111689270758788301 / 36028797018963968"]
    by (simp add: round_half_even_def Let_def power_int_minus)
  have x: "double_of 2147483647 = Some 2147483647"
    using double_of_eval [of 30 "2147483647"]
    by (simp add: round_half_even_def Let_def power_int_minus)
  have p: "double_of (14990680156240822773429043 / 2251799813685248) = Some (6980579419173683 / 1048576)"
    using double_of_eval [of 32 "14990680156240822773429043 / 2251799813685248"]
    by (simp add: round_half_even_def Let_def power_int_minus)
  have q: "double_of (6980579419173683 / 2251799812636672) = Some (6980579422424269 / 2251799813685248)"
    using double_of_eval [of 1 "6980579419173683 / 2251799812636672"]
    by (simp add: round_half_even_def Let_def power_int_minus)
  have w: "double_of (225179981368525 / 2251799813685248) = Some (225179981368525 / 2251799813685248)"
    using double_of_eval [of "- 4" "225179981368525 / 2251799813685248"]
    by (simp add: round_half_even_def Let_def power_int_minus)
  show ?thesis by (simp add: new_weight_def d x p q w)
qed

lemma round_double_huge:
  "round_double 100000000000000001097906362944045541740492309677311846336810682903157585404911491537163328978494688899061249669721172515611590283743140088328307009198146046031271664502933027185697489699588559043338384466165001178426897626212945177628091195786707458122783970171784415105291802893207873272974885715430223118336 = 100000000000000001097906362944045541740492309677311846336810682903157585404911491537163328978494688899061249669721172515611590283743140088328307009198146046031271664502933027185697489699588559043338384466165001178426897626212945177628091195786707458122783970171784415105291802893207873272974885715430223118336"
  "round_double (2 * 100000000000000001097906362944045541740492309677311846336810682903157585404911491537163328978494688899061249669721172515611590283743140088328307009198146046031271664502933027185697489699588559043338384466165001178426897626212945177628091195786707458122783970171784415105291802893207873272974885715430223118336) = 2 * 100000000000000001097906362944045541740492309677311846336810682903157585404911491537163328978494688899061249669721172515611590283743140088328307009198146046031271664502933027185697489699588559043338384466165001178426897626212945177628091195786707458122783970171784415105291802893207873272974885715430223118336"
  using round_double_eval [of 1023 "100000000000000001097906362944045541740492309677311846336810682903157585404911491537163328978494688899061249669721172515611590283743140088328307009198146046031271664502933027185697489699588559043338384466165001178426897626212945177628091195786707458122783970171784415105291802893207873272974885715430223118336"]
        round_double_eval [of 1024 "2 * 100000000000000001097906362944045541740492309677311846336810682903157585404911491537163328978494688899061249669721172515611590283743140088328307009198146046031271664502933027185697489699588559043338384466165001178426897626212945177628091195786707458122783970171784415105291802893207873272974885715430223118336"]
  by (simp_all add: round_half_even_def Let_def)

lemma is_double_huge: "is_double huge_double"
  unfolding huge_double_def is_double_def double_of_def Let_def round_double_huge(1)
  by simp

lemma new_weight_overflow:
  "new_weight rand_max r (- huge_double) huge_double = None"
proof -
  have "huge_double - - huge_double = 2 * 100000000000000001097906362944045541740492309677311846336810682903157585404911491537163328978494688899061249669721172515611590283743140088328307009198146046031271664502933027185697489699588559043338384466165001178426897626212945177628091195786707458122783970171784415105291802893207873272974885715430223118336"
    by (simp add: huge_double_def)
  then have "double_of (huge_double - - huge_double) = None"
    unfolding double_of_def Let_def by (simp only: round_double_huge(2)) simp
  then show ?thesis by (simp add: new_weight_def)
qed

section \<open>What every network keeps\<close>

lemma ANN_ctor_neurons:
  "ANN_ctor num_neurons c_src c_trg c_wts = Inr net \<Longrightarrow>
   length (neurons net) = unat (total_num_neurons net) \<and>
   (\<forall>n<length (neurons net). input_sum (neurons net ! n) = 0 \<and> output_val (neurons net ! n) = 0)"
  by (auto simp: ANN_ctor_def Let_def Neuron_ctor_def split: if_splits sum.splits)

lemma deserialize_neurons_fresh:
  "deserialize_neurons n ts = Some (ns, ts') \<Longrightarrow>
   length ns = n \<and> (\<forall>x\<in>set ns. input_sum x = 0 \<and> output_val x = 0)"
  by (induction n arbitrary: ts ns)
     (auto simp: Neuron_ctor_def split: option.splits prod.splits)

lemma deserialize_neurons_of:
  "deserialize net0 (Some ts) = Some (rc, net) \<Longrightarrow>
   \<exists>ts5 ts6. deserialize_neurons (unat (total_num_neurons net)) ts5 = Some (neurons net, ts6)"
  by (auto simp: deserialize_def split: option.splits prod.splits) blast

lemma deserialize_neurons_inv:
  assumes "deserialize net0 (Some ts) = Some (rc, net)"
  shows "neurons_inv net"
proof -
  from deserialize_neurons_of [OF assms] obtain ts5 ts6 where
    "deserialize_neurons (unat (total_num_neurons net)) ts5 = Some (neurons net, ts6)" by blast
  from deserialize_neurons_fresh [OF this] show ?thesis
    by (auto simp: neurons_inv_def)
qed

lemma fullyConnectFF_neurons:
  "neurons (fullyConnectFF net) = neurons net"
  "num_input (fullyConnectFF net) = num_input net"
  "num_hidden (fullyConnectFF net) = num_hidden net"
  "num_output (fullyConnectFF net) = num_output net"
  "num_iPLUSh (fullyConnectFF net) = num_iPLUSh net"
  "total_num_neurons (fullyConnectFF net) = total_num_neurons net"
  by (simp_all add: fullyConnectFF_def)

lemma randomizeW_neurons:
  "randomizeW rand_max rnd k net minv maxv = Some (rc, net', k') \<Longrightarrow>
   neurons net' = neurons net \<and> num_input net' = num_input net \<and>
   num_hidden net' = num_hidden net \<and> num_output net' = num_output net \<and>
   num_iPLUSh net' = num_iPLUSh net \<and>
   total_num_neurons net' = total_num_neurons net \<and>
   total_num_connections net' = total_num_connections net"
  by (auto simp: randomizeW_def split: if_splits option.splits prod.splits)

lemma setInput_loop_input_sum:
  "setInput_loop idx inputs ns = Some ns' \<Longrightarrow>
   map input_sum ns' = map input_sum ns \<and> map type ns' = map type ns"
proof (induction idx arbitrary: ns)
  case Nil
  then show ?case by simp
next
  case (Cons i idx)
  let ?ns1 = "ns[i := (ns ! i)\<lparr>output_val := inputs ! i\<rparr>]"
  from Cons.prems have i: "i < length ns" and r: "setInput_loop idx inputs ?ns1 = Some ns'"
    by (auto split: if_splits)
  have "map input_sum ?ns1 = map input_sum ns" "map type ?ns1 = map type ns"
    using i by (simp_all add: map_update list_update_same_conv)
  with Cons.IH [OF r] show ?case by simp
qed

lemma setInput_neurons_inv:
  assumes "setInput net inputs = Some (rc, net')" and "neurons_inv net"
  shows "neurons_inv net'"
proof (cases "length inputs = unat (num_input net)")
  case False
  with assms show ?thesis by (simp add: setInput_def)
next
  case True
  with assms(1) obtain ns' where
    s: "setInput_loop [0..<unat (num_input net)] inputs (neurons net) = Some ns'" and
    n: "net' = net\<lparr>neurons := ns'\<rparr>"
    by (auto simp: setInput_def split: option.splits)
  from setInput_loop_input_sum [OF s] have m: "map input_sum ns' = map input_sum (neurons net)"
    by simp
  then have l: "length ns' = length (neurons net)" by (rule map_eq_imp_length_eq)
  have "\<forall>n<length ns'. input_sum (ns' ! n) = input_sum (neurons net ! n)"
    using m l by (metis nth_map)
  with assms(2) l n show ?thesis by (simp add: neurons_inv_def)
qed

lemma activate_neurons_inv:
  assumes "activate net = Some net'" and "length (neurons net) = unat (total_num_neurons net)"
  shows "neurons_inv net'"
proof -
  from activate_SomeD [OF assms(1)] obtain cs ns ns' where
    c: "activate_connections (connections net) (neurons net) = Some (cs, ns)" and
    a: "activate_neurons [unat (num_input net)..<unat (total_num_neurons net)] ns = Some ns'" and
    n: "net' = net\<lparr>connections := cs, neurons := ns'\<rparr>"
    by blast
  from activate_connections_frame [OF c] have l1: "length ns = length (neurons net)" by simp
  from activate_neurons_SomeD [OF a] have
    l2: "length ns' = length ns" and
    v: "\<forall>n<length ns. ns' ! n =
      (if n \<in> set [unat (num_input net)..<unat (total_num_neurons net)]
       then activate_neuron (ns ! n) else ns ! n)"
    by simp_all
  have "\<forall>n<length ns'. unat (num_input net) \<le> n \<longrightarrow> input_sum (ns' ! n) = 0"
    using v l1 l2 assms(2) by (simp add: activate_neuron_def)
  then show ?thesis using n l1 l2 assms(2) by (simp add: neurons_inv_def)
qed

lemma reachable_neurons_inv: "reachable net \<Longrightarrow> neurons_inv net"
proof (induction rule: reachable.induct)
  case (r_ctor num_neurons c_src c_trg c_wts net)
  from ANN_ctor_neurons [OF this] show ?case by (simp add: neurons_inv_def)
next
  case (r_deserialize net0 ts net)
  then show ?case by (rule deserialize_neurons_inv)
next
  case (r_fullyConnectFF net)
  then show ?case by (simp add: neurons_inv_def fullyConnectFF_neurons)
next
  case (r_randomizeW net rand_max rnd k minv maxv rc net' k')
  from randomizeW_neurons [OF r_randomizeW.hyps(2)] r_randomizeW.IH show ?case
    by (simp add: neurons_inv_def)
next
  case (r_setInput net inputs rc net')
  then show ?case by (blast intro: setInput_neurons_inv)
next
  case (r_activate net net')
  from r_activate.IH have "length (neurons net) = unat (total_num_neurons net)"
    by (simp add: neurons_inv_def)
  from activate_neurons_inv [OF r_activate.hyps(2) this] show ?case .
qed

section \<open>Counts that fit the 16-bit fields\<close>

text \<open>
  When the three counts are not negative and their sum is at most 65535, the constructor
  stores them unchanged, and the two derived fields are their sums.
\<close>

lemma unat_lt_65536: "unat (w :: 16 word) < 65536"
  using unsigned_less [of w, where ?'a = nat] by simp

lemma unat_word_of_int_16:
  "0 \<le> i \<Longrightarrow> i \<le> 65535 \<Longrightarrow> unat (word_of_int i :: 16 word) = nat i"
  by (simp add: unat_eq_nat_uint uint_word_of_int)

lemma ANN_ctor_layout:
  assumes "ANN_ctor [i, h, out] c_src c_trg c_wts = Inr net"
    and "0 \<le> i" and "0 \<le> h" and "0 \<le> out" and "i + h + out \<le> 65535"
  shows "unat (num_input net) = nat i \<and> unat (num_hidden net) = nat h \<and>
         unat (num_output net) = nat out \<and>
         unat (num_iPLUSh net) = unat (num_input net) + unat (num_hidden net) \<and>
         unat (total_num_neurons net) = unat (num_iPLUSh net) + unat (num_output net) \<and>
         length (neurons net) = unat (total_num_neurons net)"
proof -
  have ni: "unat (word_of_int i :: 16 word) = nat i"
    and nh: "unat (word_of_int h :: 16 word) = nat h"
    and no: "unat (word_of_int out :: 16 word) = nat out"
    using assms(2-5) by (simp_all add: unat_word_of_int_16)
  have s1: "unat (word_of_int i + word_of_int h :: 16 word) = nat i + nat h"
    using assms(2-5) ni nh by (simp add: unat_word_ariths)
  have s2: "unat (word_of_int i + word_of_int h + word_of_int out :: 16 word)
            = nat i + nat h + nat out"
    using assms(2-5) s1 no by (simp add: unat_word_ariths [where ?'a = 16])
  from assms(1) show ?thesis
    by (auto simp: ANN_ctor_def Let_def ni nh no s1 s2 split: if_splits sum.splits)
qed

lemma ANN_ctor_layout2:
  assumes "ANN_ctor [i, out] c_src c_trg c_wts = Inr net"
    and "0 \<le> i" and "0 \<le> out" and "i + out \<le> 65535"
  shows "unat (num_input net) = nat i \<and> unat (num_hidden net) = 0 \<and>
         unat (num_output net) = nat out \<and>
         unat (num_iPLUSh net) = unat (num_input net) + unat (num_hidden net) \<and>
         unat (total_num_neurons net) = unat (num_iPLUSh net) + unat (num_output net) \<and>
         length (neurons net) = unat (total_num_neurons net)"
proof -
  have ni: "unat (word_of_int i :: 16 word) = nat i"
    and no: "unat (word_of_int out :: 16 word) = nat out"
    using assms(2-4) by (simp_all add: unat_word_of_int_16)
  have s: "unat (word_of_int i + word_of_int out :: 16 word) = nat i + nat out"
    using assms(2-4) ni no by (simp add: unat_word_ariths)
  from assms(1) show ?thesis
    by (auto simp: ANN_ctor_def Let_def ni no s split: if_splits sum.splits)
qed

text \<open>
  The constructor keeps the connections in the given order, as many as the recorded count,
  and lets pass exactly the indices from 0 to \<open>total_num_neurons\<close>, both included.
\<close>

lemma ctor_connections_eq:
  "ctor_connections tot c_src c_trg c_wts idx acc =
     (if \<exists>c\<in>set idx. c_src ! c < 0 \<or> c_src ! c > uint tot \<or> c_trg ! c < 0 \<or> c_trg ! c > uint tot
      then Inl ConfigError
      else Inr (acc @ map (\<lambda>c. Connection_ctor (c_src ! c) (c_trg ! c) (c_wts ! c)) idx))"
  by (induction idx arbitrary: acc) auto

lemma ANN_ctor_InrD:
  assumes "ANN_ctor num_neurons c_src c_trg c_wts = Inr net"
  shows "total_num_connections net = word_of_nat (length c_src) \<and>
     (if 0 < total_num_connections net
      then ctor_connections (total_num_neurons net) c_src c_trg c_wts
             [0..<unat (total_num_connections net)] []
      else Inr []) = Inr (connections net)"
  using assms
  by (auto simp: ANN_ctor_def Let_def split: if_splits sum.splits)

lemma ANN_ctor_connections:
  assumes "ANN_ctor num_neurons c_src c_trg c_wts = Inr net"
  shows "length (connections net) = unat (total_num_connections net) \<and>
         unat (total_num_connections net) \<le> length c_src \<and>
         (\<forall>c<unat (total_num_connections net).
            connections net ! c = Connection_ctor (c_src ! c) (c_trg ! c) (c_wts ! c) \<and>
            0 \<le> c_src ! c \<and> c_src ! c \<le> uint (total_num_neurons net) \<and>
            0 \<le> c_trg ! c \<and> c_trg ! c \<le> uint (total_num_neurons net))"
proof (cases "0 < total_num_connections net")
  case True
  let ?idx = "[0..<unat (total_num_connections net)]"
  from ANN_ctor_InrD [OF assms] have
    tc: "total_num_connections net = word_of_nat (length c_src)"
    by blast
  from ANN_ctor_InrD [OF assms] have
    "(if 0 < total_num_connections net
      then ctor_connections (total_num_neurons net) c_src c_trg c_wts ?idx []
      else Inr []) = Inr (connections net)"
    by blast
  with True have
    c: "ctor_connections (total_num_neurons net) c_src c_trg c_wts ?idx [] = Inr (connections net)"
    by (simp only: if_True)
  from c have ok: "\<forall>c\<in>set ?idx. \<not> (c_src ! c < 0 \<or> c_src ! c > uint (total_num_neurons net)
        \<or> c_trg ! c < 0 \<or> c_trg ! c > uint (total_num_neurons net))"
    unfolding ctor_connections_eq by (auto split: if_splits)
  with c have cs: "connections net =
      map (\<lambda>c. Connection_ctor (c_src ! c) (c_trg ! c) (c_wts ! c)) ?idx"
    unfolding ctor_connections_eq by (auto split: if_splits)
  have le: "unat (total_num_connections net) \<le> length c_src"
    unfolding tc by (simp add: unat_of_nat)
  have len: "length (connections net) = unat (total_num_connections net)"
    unfolding cs by simp
  have "\<forall>c<unat (total_num_connections net).
            connections net ! c = Connection_ctor (c_src ! c) (c_trg ! c) (c_wts ! c)"
    using arg_cong [OF cs, of "\<lambda>xs. xs ! c" for c] by simp
  with ok le len show ?thesis by (simp add: not_less)
next
  case False
  then have z: "unat (total_num_connections net) = 0"
    by (simp add: word_greater_zero_iff)
  from ANN_ctor_InrD [OF assms] False have "connections net = []" by simp
  with z show ?thesis by simp
qed

section \<open>The fully connected topology\<close>

lemma edge_Connection_ctor:
  "i < 65536 \<Longrightarrow> h < 65536 \<Longrightarrow> edge (Connection_ctor (int i) (int h) w) = (i, h)"
  by (simp add: edge_def Connection_ctor_def unat_of_nat)

lemma edge_block:
  assumes "\<forall>i\<in>set xs. i < 65536" and "\<forall>h\<in>set ys. h < 65536"
  shows "map edge (concat (map (\<lambda>i. map (\<lambda>h. Connection_ctor (int i) (int h) w) ys) xs))
         = List.product xs ys"
  using assms(1)
proof (induction xs)
  case Nil
  then show ?case by simp
next
  case (Cons x xs)
  have "map (\<lambda>h. edge (Connection_ctor (int x) (int h) w)) ys = map (Pair x) ys"
    using Cons.prems assms(2) by (intro map_cong) (auto simp: edge_Connection_ctor)
  with Cons show ?case by (simp add: comp_def)
qed

lemma weight_block:
  "\<forall>c\<in>set (concat (map (\<lambda>i. map (\<lambda>h. Connection_ctor (int i) (int h) w) ys) xs)).
     weight c = w \<and> data c = 0"
  by (auto simp: Connection_ctor_def)

lemma fullyConnectFF_layout:
  assumes "unat (num_iPLUSh net) = unat (num_input net) + unat (num_hidden net)"
    and "unat (total_num_neurons net) = unat (num_iPLUSh net) + unat (num_output net)"
  shows "map edge (connections (fullyConnectFF net)) =
           List.product [0..<unat (num_input net)]
             [unat (num_input net)..<unat (num_input net) + unat (num_hidden net)]
           @ List.product
               [unat (num_input net)..<unat (num_input net) + unat (num_hidden net)]
               [unat (num_input net) + unat (num_hidden net)..<
                  unat (num_input net) + unat (num_hidden net) + unat (num_output net)] \<and>
         (\<forall>c\<in>set (connections (fullyConnectFF net)). weight c = 0) \<and>
         length (connections (fullyConnectFF net)) =
           unat (num_hidden net) * (unat (num_input net) + unat (num_output net)) \<and>
         distinct (map edge (connections (fullyConnectFF net))) \<and>
         (unat (num_hidden net) = 0 \<longrightarrow> connections (fullyConnectFF net) = [])"
proof -
  let ?I = "unat (num_input net)" and ?H = "unat (num_hidden net)" and ?O = "unat (num_output net)"
  let ?cs = "connections (fullyConnectFF net)"
  have b1: "\<forall>i\<in>set [0..<?I]. i < 65536"
    using unat_lt_65536 [of "num_input net"] by auto
  have b2: "\<forall>h\<in>set [?I..<unat (num_iPLUSh net)]. h < 65536"
    using unat_lt_65536 [of "num_iPLUSh net"] by auto
  have b3: "\<forall>h\<in>set [unat (num_iPLUSh net)..<unat (total_num_neurons net)]. h < 65536"
    using unat_lt_65536 [of "total_num_neurons net"] by auto
  have e: "map edge ?cs =
      List.product [0..<?I] [?I..<?I + ?H] @ List.product [?I..<?I + ?H] [?I + ?H..<?I + ?H + ?O]"
    using edge_block [OF b1 b2, of 0] edge_block [OF b2 b3, of 0] assms
    by (simp add: fullyConnectFF_def)
  have w: "\<forall>c\<in>set ?cs. weight c = 0"
    using weight_block [of 0 "[?I..<unat (num_iPLUSh net)]" "[0..<?I]"]
          weight_block [of 0 "[unat (num_iPLUSh net)..<unat (total_num_neurons net)]"
                           "[?I..<unat (num_iPLUSh net)]"]
    unfolding fullyConnectFF_def by (simp add: ball_Un)
  have "length (map edge ?cs) = ?H * (?I + ?O)"
    unfolding e by (simp add: algebra_simps)
  then have l: "length ?cs = ?H * (?I + ?O)" by simp
  have d: "distinct (map edge ?cs)"
    unfolding e by (auto simp: distinct_product)
  have z: "?H = 0 \<longrightarrow> ?cs = []"
    using l by auto
  from e w l d z show ?thesis by blast
qed

text \<open>
  The recorded count is the number of connections made while the product of the counts
  fits the 16-bit field.
\<close>

lemma fullyConnectFF_count:
  assumes "unat (num_iPLUSh net) = unat (num_input net) + unat (num_hidden net)"
    and "unat (total_num_neurons net) = unat (num_iPLUSh net) + unat (num_output net)"
    and "unat (num_hidden net) * (unat (num_input net) + unat (num_output net)) \<le> 65535"
  shows "length (connections (fullyConnectFF net)) =
         unat (total_num_connections (fullyConnectFF net))"
proof -
  let ?I = "unat (num_input net)" and ?H = "unat (num_hidden net)" and ?O = "unat (num_output net)"
  have "unat (total_num_connections (fullyConnectFF net)) = (?H * ((?I + ?O) mod 65536)) mod 65536"
    by (simp add: fullyConnectFF_def unat_word_ariths)
  also have "\<dots> = (?H * (?I + ?O)) mod 65536"
    by (simp add: mod_mult_right_eq)
  also have "\<dots> = ?H * (?I + ?O)" using assms(3) by simp
  finally show ?thesis using fullyConnectFF_layout [OF assms(1,2)] by simp
qed

section \<open>One pass repeated\<close>

lemma activate_frame_returned:
  assumes "reachable net" and "activate net = Some net'"
  shows "map source_neuron_idx (connections net') = map source_neuron_idx (connections net) \<and>
     map target_neuron_idx (connections net') = map target_neuron_idx (connections net) \<and>
     map weight (connections net') = map weight (connections net) \<and>
     (\<forall>n<length (neurons net). n < unat (num_input net) \<longrightarrow>
        output_val (neurons net' ! n) = output_val (neurons net ! n)) \<and>
     (\<forall>n<length (neurons net'). unat (num_input net) \<le> n \<longrightarrow>
        input_sum (neurons net' ! n) = 0) \<and>
     length (neurons net') = length (neurons net) \<and>
     map type (neurons net') = map type (neurons net) \<and>
     net' = net\<lparr>connections := connections net', neurons := neurons net'\<rparr>"
proof -
  from reachable_neurons_inv [OF assms(1)] have
    len: "length (neurons net) = unat (total_num_neurons net)"
    by (simp add: neurons_inv_def)
  from activate_SomeD [OF assms(2)] obtain cs ns ns' where
    c: "activate_connections (connections net) (neurons net) = Some (cs, ns)" and
    a: "activate_neurons [unat (num_input net)..<unat (total_num_neurons net)] ns = Some ns'" and
    n: "net' = net\<lparr>connections := cs, neurons := ns'\<rparr>"
    by blast
  note f = activate_connections_frame [OF c]
  from activate_neurons_SomeD [OF a] have
    l2: "length ns' = length ns" and
    v: "\<forall>n<length ns. ns' ! n =
      (if n \<in> set [unat (num_input net)..<unat (total_num_neurons net)]
       then activate_neuron (ns ! n) else ns ! n)"
    by simp_all
  have inv: "neurons_inv net'" using activate_neurons_inv [OF assms(2) len] .
  have outs: "\<forall>n<length (neurons net). n < unat (num_input net) \<longrightarrow>
        output_val (ns' ! n) = output_val (neurons net ! n)"
  proof (intro allI impI)
    fix n assume n1: "n < length (neurons net)" and n2: "n < unat (num_input net)"
    have "ns' ! n = ns ! n" using v n1 n2 f by simp
    moreover have "output_val (ns ! n) = output_val (neurons net ! n)"
      using f n1 by (metis nth_map)
    ultimately show "output_val (ns' ! n) = output_val (neurons net ! n)" by simp
  qed
  have types: "map type ns' = map type ns"
  proof (rule nth_equalityI)
    show "length (map type ns') = length (map type ns)" using l2 by simp
  next
    fix i assume "i < length (map type ns')"
    then have i: "i < length ns" using l2 by simp
    then show "map type ns' ! i = map type ns ! i"
      using v l2 by (simp add: activate_neuron_def)
  qed
  show ?thesis
    using f l2 outs types inv n by (simp add: neurons_inv_def)
qed


lemma output_val_accumulate:
  "output_val (ns[t := (ns ! t)\<lparr>input_sum := v\<rparr>] ! i) = output_val (ns ! i)"
  by (cases "t < length ns"; cases "i = t") (simp_all add: list_update_beyond)

lemma activate_connections_feed:
  assumes "list_all2 same_edge cs ds"
    and "same_feed ni cs ns ms"
    and "activate_connections cs ns = Some (cs', ns')"
    and "activate_connections ds ms = Some (ds', ms')"
  shows "length ns' = length ms' \<and>
         (\<forall>n<length ns'. ni \<le> n \<longrightarrow> input_sum (ns' ! n) = input_sum (ms' ! n))"
  using assms
proof (induction cs ds arbitrary: ns ms cs' ds' rule: list_all2_induct)
  case Nil
  then show ?case by (simp add: same_feed_def)
next
  case (Cons c cs d ds)
  let ?s = "unat (source_neuron_idx c)"
  let ?t = "unat (target_neuron_idx c)"
  let ?d = "weight c * output_val (ns ! ?s)"
  let ?ns1 = "ns[?t := (ns ! ?t)\<lparr>input_sum := input_sum (ns ! ?t) + ?d\<rparr>]"
  let ?e = "weight c * output_val (ms ! ?s)"
  let ?ms1 = "ms[?t := (ms ! ?t)\<lparr>input_sum := input_sum (ms ! ?t) + ?e\<rparr>]"
  from Cons.hyps(1) have eq: "source_neuron_idx d = source_neuron_idx c"
    "target_neuron_idx d = target_neuron_idx c" "weight d = weight c"
    by (simp_all add: same_edge_def)
  from Cons.prems(2) obtain cs1 where
    ok: "?s < length ns" "?t < length ns" and
    r1: "activate_connections cs ?ns1 = Some (cs1, ns')"
    by (auto simp: Let_def split: if_splits option.splits)
  from Cons.prems(3) eq obtain ds1 where
    r2: "activate_connections ds ?ms1 = Some (ds1, ms')"
    by (auto simp: Let_def split: if_splits option.splits)
  from Cons.prems(1) have len: "length ns = length ms"
    and src: "\<forall>c'\<in>set (c # cs). output_val (ns ! unat (source_neuron_idx c'))
                  = output_val (ms ! unat (source_neuron_idx c'))"
    and acc: "\<forall>n<length ns. ni \<le> n \<longrightarrow> input_sum (ns ! n) = input_sum (ms ! n)"
    by (simp_all add: same_feed_def)
  have de: "?d = ?e" using src by simp
  have rel: "same_feed ni cs ?ns1 ?ms1"
    unfolding same_feed_def
  proof (intro conjI ballI allI impI)
    show "length ?ns1 = length ?ms1" using len by simp
  next
    fix c' assume "c' \<in> set cs"
    then show "output_val (?ns1 ! unat (source_neuron_idx c'))
             = output_val (?ms1 ! unat (source_neuron_idx c'))"
      using src by (simp add: output_val_accumulate)
  next
    fix n assume "n < length ?ns1" and "ni \<le> n"
    then show "input_sum (?ns1 ! n) = input_sum (?ms1 ! n)"
      using acc len de by (cases "n = ?t") simp_all
  qed
  from Cons.IH [OF rel r1 r2] show ?case .
qed

lemma activate_twice_settled:
  assumes "reachable net"
    and "activate net = Some net1"
    and "\<forall>c\<in>set (connections net).
           unat (source_neuron_idx c) < unat (num_input net) \<or>
           output_val (neurons net1 ! unat (source_neuron_idx c))
             = output_val (neurons net ! unat (source_neuron_idx c))"
  shows "\<exists>net2 outs. activate net1 = Some net2 \<and>
           map output_val (neurons net2) = map output_val (neurons net1) \<and>
           getOutput net1 = Some outs \<and> getOutput net2 = Some outs"
proof -
  let ?ni = "unat (num_input net)" and ?tot = "unat (total_num_neurons net)"
  from reachable_neurons_inv [OF assms(1)] have
    len: "length (neurons net) = ?tot" and
    z0: "\<forall>n<length (neurons net). ?ni \<le> n \<longrightarrow> input_sum (neurons net ! n) = 0"
    by (simp_all add: neurons_inv_def)
  from activate_SomeD [OF assms(2)] obtain cs1 ns1 ns1' where
    c1: "activate_connections (connections net) (neurons net) = Some (cs1, ns1)" and
    a1: "activate_neurons [?ni..<?tot] ns1 = Some ns1'" and
    n1: "net1 = net\<lparr>connections := cs1, neurons := ns1'\<rparr>"
    by blast
  note f1 = activate_connections_frame [OF c1]
  from activate_neurons_SomeD [OF a1] have
    l1: "length ns1' = length ns1" and
    v1: "\<forall>n<length ns1. ns1' ! n =
      (if n \<in> set [?ni..<?tot] then activate_neuron (ns1 ! n) else ns1 ! n)"
    by simp_all
  have r1: "reachable net1" using assms(1,2) by (rule reachable.r_activate)
  from reachable_neurons_inv [OF r1] n1 have
    z1: "\<forall>n<length ns1'. ?ni \<le> n \<longrightarrow> input_sum (ns1' ! n) = 0"
    by (simp add: neurons_inv_def)
  have lens: "length ns1' = length (neurons net)" using l1 f1 by simp
  have rng0: "\<forall>c\<in>set (connections net).
      unat (source_neuron_idx c) < length (neurons net) \<and>
      unat (target_neuron_idx c) < length (neurons net)"
    using c1 by (rule activate_connections_in_range)
  \<comment> \<open>the second call is defined\<close>
  have se: "list_all2 same_edge (connections net) cs1"
    using c1 by (rule activate_connections_same_edge)
  have rng: "\<forall>c\<in>set cs1. unat (source_neuron_idx c) < length ns1' \<and>
                          unat (target_neuron_idx c) < length ns1'"
  proof
    fix c assume "c \<in> set cs1"
    then obtain i where i: "i < length cs1" "c = cs1 ! i" by (auto simp: in_set_conv_nth)
    from se i have e: "same_edge (connections net ! i) c" and j: "i < length (connections net)"
      by (auto simp: list_all2_conv_all_nth)
    from j have "connections net ! i \<in> set (connections net)" by simp
    with rng0 have
      "unat (source_neuron_idx (connections net ! i)) < length (neurons net) \<and>
       unat (target_neuron_idx (connections net ! i)) < length (neurons net)"
      by blast
    with e lens
    show "unat (source_neuron_idx c) < length ns1' \<and> unat (target_neuron_idx c) < length ns1'"
      by (simp add: same_edge_def)
  qed
  from activate_connections_defined [OF rng] obtain cs2 ns2 where
    c2: "activate_connections cs1 ns1' = Some (cs2, ns2)" by blast
  note f2 = activate_connections_frame [OF c2]
  have "\<forall>n\<in>set [?ni..<?tot]. n < length ns2" using f2 lens len by simp
  from activate_neurons_Some [OF this] obtain ns2' where
    a2: "activate_neurons [?ni..<?tot] ns2 = Some ns2'" and
    l2: "length ns2' = length ns2" and
    v2: "\<forall>n<length ns2. ns2' ! n =
      (if n \<in> set [?ni..<?tot] then activate_neuron (ns2 ! n) else ns2 ! n)"
    by auto
  let ?net2 = "net1\<lparr>connections := cs2, neurons := ns2'\<rparr>"
  have act2: "activate net1 = Some ?net2"
    using c2 a2 n1 by (simp add: activate_def)
  \<comment> \<open>the outputs below \<open>num_input\<close> are those of the start\<close>
  have low: "\<forall>n<length (neurons net). n < ?ni \<longrightarrow>
               output_val (ns1' ! n) = output_val (neurons net ! n)"
  proof (intro allI impI)
    fix n assume n: "n < length (neurons net)" and "n < ?ni"
    then have "ns1' ! n = ns1 ! n" using v1 f1 by simp
    moreover have "output_val (ns1 ! n) = output_val (neurons net ! n)"
      using f1 n by (metis nth_map)
    ultimately show "output_val (ns1' ! n) = output_val (neurons net ! n)" by simp
  qed
  \<comment> \<open>both first loops read the same outputs and start from the same accumulators\<close>
  have rel0: "same_feed ?ni (connections net) (neurons net) ns1'"
    unfolding same_feed_def
  proof (intro conjI ballI allI impI)
    show "length (neurons net) = length ns1'" using lens by simp
  next
    fix c assume c: "c \<in> set (connections net)"
    with rng0 have s: "unat (source_neuron_idx c) < length (neurons net)" by blast
    from assms(3) c have
      "unat (source_neuron_idx c) < ?ni \<or>
       output_val (neurons net1 ! unat (source_neuron_idx c))
         = output_val (neurons net ! unat (source_neuron_idx c))"
      by blast
    then show "output_val (neurons net ! unat (source_neuron_idx c))
             = output_val (ns1' ! unat (source_neuron_idx c))"
      using low s n1 by auto
  next
    fix n assume "n < length (neurons net)" and "?ni \<le> n"
    then show "input_sum (neurons net ! n) = input_sum (ns1' ! n)"
      using z0 z1 lens by simp
  qed
  from activate_connections_feed [OF se rel0 c1 c2]
  have acc: "\<forall>n<length ns1. ?ni \<le> n \<longrightarrow> input_sum (ns1 ! n) = input_sum (ns2 ! n)"
    by blast
  have outs: "map output_val ns2' = map output_val ns1'"
  proof (rule nth_equalityI)
    show "length (map output_val ns2') = length (map output_val ns1')"
      using l2 f2 by simp
  next
    fix n assume "n < length (map output_val ns2')"
    then have n: "n < length ns1" "n < length ns2" "n < length ns1'" using l2 f2 l1 by simp_all
    have t: "n < ?tot" using n f1 len by simp
    show "map output_val ns2' ! n = map output_val ns1' ! n"
    proof (cases "n < ?ni")
      case True
      have "ns2' ! n = ns2 ! n" using v2 n True by simp
      moreover have "output_val (ns2 ! n) = output_val (ns1' ! n)"
        using f2 n by (metis nth_map)
      ultimately show ?thesis using n l2 by simp
    next
      case False
      then have "input_sum (ns1 ! n) = input_sum (ns2 ! n)"
        using acc n by simp
      then show ?thesis using False t n v1 v2 l1 l2 by (simp add: activate_neuron_def)
    qed
  qed
  have g1: "getOutput net1 = Some (map (\<lambda>n. output_val (ns1' ! n))
              [unat (num_iPLUSh net)..<?tot])"
    using getOutput_Some [of net1] n1 lens len by simp
  have g2: "getOutput ?net2 = Some (map (\<lambda>n. output_val (ns2' ! n))
              [unat (num_iPLUSh net)..<?tot])"
    using getOutput_Some [of ?net2] n1 l2 f2 lens len by simp
  have "map (\<lambda>n. output_val (ns2' ! n)) [unat (num_iPLUSh net)..<?tot]
        = map (\<lambda>n. output_val (ns1' ! n)) [unat (num_iPLUSh net)..<?tot]"
  proof (rule map_cong [OF refl])
    fix n assume "n \<in> set [unat (num_iPLUSh net)..<?tot]"
    then have "n < length ns1'" "n < length ns2'" using lens len l2 f2 by simp_all
    then show "output_val (ns2' ! n) = output_val (ns1' ! n)"
      using outs by (metis nth_map)
  qed
  with g1 g2 act2 outs n1 show ?thesis by simp
qed

section \<open>Reading back what was written\<close>

lemma read_ushort_uint:
  "read_ushort (Int_tok (uint (w :: 16 word)) # rest) = Some (w, rest)"
proof -
  have "uint w < 65536" using uint_lt2p [of w] by simp
  then show ?thesis by simp
qed

lemma NeuronType_of_int_inverse:
  "NeuronType_of_int (int_of_NeuronType t) = Some t"
  by (cases t) (simp_all add: NeuronType_of_int_def int_of_NeuronType_def)

lemma read_int_NeuronType:
  "read_int (Int_tok (int_of_NeuronType t) # rest) = Some (int_of_NeuronType t, rest)"
  by (cases t) (simp_all add: int_of_NeuronType_def)

lemma deserialize_neurons_serialized:
  "deserialize_neurons (length ns)
     (map (\<lambda>nr. Int_tok (int_of_NeuronType (type nr))) ns @ rest)
   = Some (map (\<lambda>nr. Neuron_ctor (type nr)) ns, rest)"
  by (induction ns)
     (simp_all add: read_int_NeuronType NeuronType_of_int_inverse del: read_int.simps)

lemma Connection_ctor_uint:
  "Connection_ctor (uint s) (uint t) w =
     \<lparr>source_neuron_idx = s, target_neuron_idx = t, weight = w, data = 0\<rparr>"
  by (simp add: Connection_ctor_def)

lemma deserialize_connections_serialized:
  "n \<le> length cs \<Longrightarrow> \<forall>c\<in>set (take n cs). double_of (round_sig6 (weight c)) \<noteq> None \<Longrightarrow>
   deserialize_connections n
     (concat (map (\<lambda>c. [Int_tok (uint (source_neuron_idx c)),
                          Int_tok (uint (target_neuron_idx c)),
                          Real_tok (round_sig6 (weight c))]) cs) @ rest)
   = Some (map restored_connection (take n cs),
           concat (map (\<lambda>c. [Int_tok (uint (source_neuron_idx c)),
                          Int_tok (uint (target_neuron_idx c)),
                          Real_tok (round_sig6 (weight c))]) (drop n cs)) @ rest)"
proof (induction n arbitrary: cs)
  case 0
  then show ?case by simp
next
  case (Suc n)
  then obtain c cs' where cs: "cs = c # cs'" by (cases cs) auto
  with Suc.prems have n: "n \<le> length cs'" and
    r: "\<forall>c\<in>set (take n cs'). double_of (round_sig6 (weight c)) \<noteq> None" and
    c: "double_of (round_sig6 (weight c)) \<noteq> None"
    by simp_all
  from c have d: "double_of (round_sig6 (weight c)) = Some (round_double (round_sig6 (weight c)))"
    by (simp add: double_of_def Let_def split: if_splits)
  from Suc.IH [OF n r] show ?case
    unfolding cs
    by (simp add: read_ushort_uint Connection_ctor_uint restored_connection_def d
        del: read_ushort.simps)
qed

lemma reload_eq:
  assumes "length (neurons net) = unat (total_num_neurons net)"
    and "unat (total_num_connections net) \<le> length (connections net)"
    and "\<forall>c\<in>set (take (unat (total_num_connections net)) (connections net)).
           double_of (round_sig6 (weight c)) \<noteq> None"
  shows "reload net0 net =
     Some (0, net0\<lparr>num_input := num_input net, num_hidden := num_hidden net,
                    num_output := num_output net, num_iPLUSh := num_iPLUSh net,
                    total_num_neurons := total_num_neurons net,
                    neurons := map (\<lambda>nr. Neuron_ctor (type nr)) (neurons net),
                    total_num_connections := total_num_connections net,
                    connections := map restored_connection
                      (take (unat (total_num_connections net)) (connections net))\<rparr>)"
  using deserialize_neurons_serialized [of "neurons net"]
        deserialize_connections_serialized [OF assms(2,3), of "[]"]
  by (simp add: reload_def serialize_def deserialize_def read_ushort_uint assms(1)
      del: read_ushort.simps)

lemma deserialize_connections_length:
  "deserialize_connections n ts = Some (cs, ts') \<Longrightarrow> length cs = n"
  by (induction n arbitrary: ts cs) (auto split: option.splits prod.splits)

lemma deserialize_connections_count:
  assumes "deserialize net0 (Some ts) = Some (rc, net)"
  shows "length (connections net) = unat (total_num_connections net)"
proof -
  from assms obtain ts7 ts8 where
    "deserialize_connections (unat (total_num_connections net)) ts7 = Some (connections net, ts8)"
    by (auto simp: deserialize_def split: option.splits prod.splits)
  then show ?thesis by (rule deserialize_connections_length)
qed

lemma floor_log10_eq:
  fixes x :: real
  assumes "10 powi k \<le> x" and "x < 10 powi (k + 1)"
  shows "\<lfloor>log 10 x\<rfloor> = k"
proof -
  have "0 < (10::real) powi k" by simp
  with assms(1) have p: "0 < x" by linarith
  have "(10::real) powr (of_int k) = 10 powi k" by (simp add: powr_real_of_int')
  moreover have "(10::real) powr (of_int k + 1) = 10 powi (k + 1)"
    using powr_real_of_int' [of 10 "k + 1"] by simp
  ultimately show ?thesis
    using assms floor_log_eq_powr_iff [OF p, of 10 k] by simp
qed

lemma round_sig6_zero: "round_sig6 0 = 0"
  by (simp add: round_sig6_def)

lemma round_sig6_half: "round_sig6 (1 / 2) = 1 / 2"
proof -
  have "\<lfloor>log 10 \<bar>1 / 2 :: real\<bar>\<rfloor> = - 1"
    by (rule floor_log10_eq) (simp_all add: power_int_minus)
  then show ?thesis
    by (simp add: round_sig6_def round_half_even_def Let_def power_int_minus)
qed

lemma round_sig6_tenths:
  fixes x :: real
  assumes "1 / 10 \<le> \<bar>x\<bar>" and "\<bar>x\<bar> < 1"
  shows "round_sig6 x = of_int (round_half_even (x * 1000000)) / 1000000"
proof -
  have "\<lfloor>log 10 \<bar>x\<bar>\<rfloor> = - 1"
    using assms by (intro floor_log10_eq) (simp_all add: power_int_minus)
  moreover have "x \<noteq> 0" using assms(1) by auto
  ultimately show ?thesis
    by (simp add: round_sig6_def Let_def power_int_minus)
qed

lemma round_half_even_le_half: "y < of_int k + 1 / 2 \<Longrightarrow> round_half_even y \<le> k"
proof -
  assume a: "y < of_int k + 1 / 2"
  then have "y < of_int (k + 1)" by simp
  then have "\<lfloor>y\<rfloor> < k + 1" by (simp only: floor_less_iff)
  then have "\<lfloor>y\<rfloor> < k \<or> \<lfloor>y\<rfloor> = k" by auto
  then show ?thesis
  proof
    assume "\<lfloor>y\<rfloor> < k"
    then show ?thesis by (simp add: round_half_even_def Let_def)
  next
    assume "\<lfloor>y\<rfloor> = k"
    then show ?thesis using a by (simp add: round_half_even_def Let_def)
  qed
qed

lemma round_half_even_ge_half: "of_int k - 1 / 2 < y \<Longrightarrow> k \<le> round_half_even y"
proof -
  assume a: "of_int k - 1 / 2 < y"
  then have "of_int (k - 1) \<le> y" by simp
  then have "k - 1 \<le> \<lfloor>y\<rfloor>" by (simp only: le_floor_iff)
  then have "k \<le> \<lfloor>y\<rfloor> \<or> \<lfloor>y\<rfloor> = k - 1" by auto
  then show ?thesis
  proof
    assume "k \<le> \<lfloor>y\<rfloor>"
    then show ?thesis by (simp add: round_half_even_def Let_def)
  next
    assume "\<lfloor>y\<rfloor> = k - 1"
    then show ?thesis using a by (simp add: round_half_even_def Let_def)
  qed
qed

lemma floor_log10_bounds:
  fixes x :: real
  assumes "x \<noteq> 0"
  shows "10 powi \<lfloor>log 10 \<bar>x\<bar>\<rfloor> \<le> \<bar>x\<bar>" and "\<bar>x\<bar> < 10 powi (\<lfloor>log 10 \<bar>x\<bar>\<rfloor> + 1)"
proof -
  let ?k = "\<lfloor>log 10 \<bar>x\<bar>\<rfloor>"
  have p: "0 < \<bar>x\<bar>" using assms by simp
  have a: "(10::real) powr (of_int ?k) = 10 powi ?k" by (simp add: powr_real_of_int')
  have b: "(10::real) powr (of_int ?k + 1) = 10 powi (?k + 1)"
    using powr_real_of_int' [of 10 "?k + 1"] by simp
  have "10 powr (of_int ?k) \<le> \<bar>x\<bar> \<and> \<bar>x\<bar> < 10 powr (of_int ?k + 1)"
    using floor_log_eq_powr_iff [OF p, of 10 ?k] by simp
  then show "10 powi ?k \<le> \<bar>x\<bar>" and "\<bar>x\<bar> < 10 powi (?k + 1)"
    using a b by simp_all
qed

lemma round_sig6_bound:
  assumes "\<bar>w\<bar> < 2 ^ 1024"
  shows "\<bar>round_sig6 w\<bar> \<le> 179769 * 10 ^ 303"
proof (cases "w = 0")
  case True
  then show ?thesis by (simp add: round_sig6_def)
next
  case False
  let ?e = "\<lfloor>log 10 \<bar>w\<bar>\<rfloor>"
  let ?q = "(10::real) powi (?e - 5)"
  let ?r = "round_half_even (w / ?q)"
  have q: "0 < ?q" by simp
  have s: "round_sig6 w = of_int ?r * ?q" using False by (simp add: round_sig6_def Let_def)
  have lo: "10 powi ?e \<le> \<bar>w\<bar>" and hi: "\<bar>w\<bar> < 10 powi (?e + 1)"
    using floor_log10_bounds [OF False] by simp_all
  have "(2::real) ^ 1024 < 10 powi 309" by simp
  with lo assms have "(10::real) powi ?e < 10 powi 309" by linarith
  then have "?e < 309" by (rule powi_less_D) simp
  then have e: "?e \<le> 308" by linarith
  show ?thesis
  proof (cases "?e = 308")
    case True
    then have q303: "?q = 10 ^ 303" by simp
    have "(2::real) ^ 1024 < (179769 + 1 / 2) * 10 ^ 303" by simp
    with assms have "\<bar>w\<bar> < (179769 + 1 / 2) * 10 ^ 303" by linarith
    then have "\<bar>w\<bar> / 10 ^ 303 < 179769 + 1 / 2" by (simp add: divide_less_eq)
    then have y: "\<bar>w / ?q\<bar> < 179769 + 1 / 2" unfolding q303 by simp
    from y have "w / ?q < 179769 + 1 / 2" and "- 179769 - 1 / 2 < w / ?q" by linarith+
    then have "w / ?q < of_int 179769 + 1 / 2" and "of_int (- 179769) - 1 / 2 < w / ?q"
      by simp_all
    from round_half_even_le_half [OF this(1)] round_half_even_ge_half [OF this(2)]
    have "\<bar>?r\<bar> \<le> 179769" by simp
    then have "\<bar>of_int ?r :: real\<bar> \<le> 179769" by (metis of_int_abs of_int_le_iff of_int_numeral)
    then have "\<bar>of_int ?r * ?q\<bar> \<le> 179769 * ?q"
      using q by (simp add: abs_mult)
    then show ?thesis unfolding s q303 .
  next
    case False
    with e have e307: "?e + 1 \<le> 308" by linarith
    have "?e + 1 = 6 + (?e - 5)" by simp
    then have "(10::real) powi (?e + 1) = 10 powi (6 + (?e - 5))" by (simp only:)
    also have "\<dots> = 10 powi 6 * ?q" by (rule power_int_add) simp
    finally have m: "10 powi (?e + 1) = of_int 1000000 * ?q" by simp
    from hi have "w \<le> of_int 1000000 * ?q" and "of_int (- 1000000) * ?q \<le> w"
      unfolding m by (simp_all add: abs_less_iff)
    from round_mult_le [OF q this(1)] round_mult_ge [OF q this(2)]
    have "\<bar>of_int ?r * ?q\<bar> \<le> of_int 1000000 * ?q" by (simp add: abs_le_iff)
    also have "\<dots> = 10 powi (?e + 1)" using m by simp
    also have "\<dots> \<le> 10 powi 308" using e307 by (intro power_int_increasing) simp_all
    also have "\<dots> \<le> 179769 * 10 ^ 303" by simp
    finally show ?thesis unfolding s .
  qed
qed

lemma double_of_round_sig6:
  assumes "\<bar>w\<bar> < 2 ^ 1024"
  shows "double_of (round_sig6 w) = Some (round_double (round_sig6 w))"
proof -
  let ?s = "round_sig6 w"
  have b: "\<bar>?s\<bar> \<le> 179769 * 10 ^ 303" using assms by (rule round_sig6_bound)
  have c: "(179769::real) * 10 ^ 303 \<le> of_int (2 ^ 53 - 1) * 2 powi 971" by simp
  have d: "of_int (2 ^ 53 - 1) * 2 powi 971 < (2::real) ^ 1024" by simp
  show ?thesis
  proof (cases "?s = 0")
    case True
    then show ?thesis by (simp add: double_of_def round_double_def)
  next
    case False
    have "2 powi \<lfloor>log 2 \<bar>?s\<bar>\<rfloor> \<le> \<bar>?s\<bar>" using floor_log2_bounds(1) [OF False] .
    also have "\<dots> < 2 powi 1024" using b c d by simp
    finally have "\<lfloor>log 2 \<bar>?s\<bar>\<rfloor> < 1024" by (rule powi_less_D) simp
    then have "\<lfloor>log 2 \<bar>?s\<bar>\<rfloor> \<le> 1023" by linarith
    then have j: "ulp_exp ?s \<le> 971" by (simp add: ulp_exp_def)
    have "\<bar>?s\<bar> \<le> of_int (2 ^ 53 - 1) * 2 powi 971" using b c by linarith
    from round_double_bound_multiple [OF j this] d
    have "\<bar>round_double ?s\<bar> < 2 ^ 1024" by linarith
    then show ?thesis by (simp add: double_of_def)
  qed
qed

lemma round_double_half: "round_double (1 / 2) = 1 / 2"
  using round_double_eval [of "- 1" "1 / 2"] by (simp add: round_half_even_def power_int_minus)

lemma round_sig6_drawn: "map round_sig6 drawn_weights = written_weights"
proof -
  have s0: "round_sig6 (3064138552427939 / 4503599627370496) = 680375 / 1000000"
    by (simp add: round_sig6_tenths round_half_even_def Let_def)
  have s1: "round_sig6 (- (475657011421495 / 2251799813685248)) = - (211234 / 1000000)"
    by (simp add: round_sig6_tenths round_half_even_def Let_def)
  have s2: "round_sig6 (637482779314067 / 1125899906842624) = 566198 / 1000000"
    by (simp add: round_sig6_tenths round_half_even_def Let_def)
  have s3: "round_sig6 (672027211777641 / 1125899906842624) = 596880 / 1000000"
    by (simp add: round_sig6_tenths round_half_even_def Let_def)
  have s4: "round_sig6 (1853894887812151 / 2251799813685248) = 823295 / 1000000"
    by (simp add: round_sig6_tenths round_half_even_def Let_def)
  have s5: "round_sig6 (- (5448430162196131 / 9007199254740992)) = - (604897 / 1000000)"
    by (simp add: round_sig6_tenths round_half_even_def Let_def)
  show ?thesis
    unfolding drawn_weights_def written_weights_def list.map
    by (simp only: s0 s1 s2 s3 s4 s5)
qed

lemma round_double_written: "map round_double written_weights = restored_weights"
proof -
  have r0: "round_double (680375 / 1000000) = (3064136596472201 / 4503599627370496)"
    using round_double_eval [of "- 1" "680375 / 1000000"]
    by (simp add: round_half_even_def Let_def power_int_minus)
  have r1: "round_double (- (211234 / 1000000)) = (- (7610506909503835 / 36028797018963968))"
    using round_double_eval [of "- 3" "- (211234 / 1000000)"]
    by (simp add: round_half_even_def Let_def power_int_minus)
  have r2: "round_double (566198 / 1000000) = (39842642215905 / 70368744177664)"
    using round_double_eval [of "- 1" "566198 / 1000000"]
    by (simp add: round_half_even_def Let_def power_int_minus)
  have r3: "round_double (596880 / 1000000) = (5376217091169803 / 9007199254740992)"
    using round_double_eval [of "- 1" "596880 / 1000000"]
    by (simp add: round_half_even_def Let_def power_int_minus)
  have r4: "round_double (823295 / 1000000) = (7415582110431985 / 9007199254740992)"
    using round_double_eval [of "- 1" "823295 / 1000000"]
    by (simp add: round_half_even_def Let_def power_int_minus)
  have r5: "round_double (- (604897 / 1000000)) = (- (2724213903797531 / 4503599627370496))"
    using round_double_eval [of "- 1" "- (604897 / 1000000)"]
    by (simp add: round_half_even_def Let_def power_int_minus)
  show ?thesis
    unfolding written_weights_def restored_weights_def list.map
    by (simp only: r0 r1 r2 r3 r4 r5)
qed

section \<open>The concrete networks evaluated\<close>

lemma ctor_1_1: "ANN_ctor [1, 1] [0] [1] [w] = Inr (net_1_1 w)"
  by (simp add: ANN_ctor_def Let_def net_1_1_def ctor_ntype_def Connection_ctor_def upt_rec)

lemma reachable_1_1: "reachable (net_1_1 w)"
  using ctor_1_1 by (rule reachable.r_ctor)

lemma getOutput_1_1: "getOutput (net_1_1 w) = Some [0]"
  by (simp add: getOutput_def net_1_1_def Neuron_ctor_def upt_rec)

lemma activate_1_1:
  "activate (net_1_1 1) =
     Some ((net_1_1 1)\<lparr>neurons := [Neuron_ctor INPUT_N,
                                     \<lparr>input_sum = 0, output_val = 1 / 2, type = OUTPUT_N\<rparr>]\<rparr>)"
  by (simp add: activate_def net_1_1_def activate_neuron_def sigmoid_AF_def Neuron_ctor_def
      upt_rec)

lemma ctor_chain: "ANN_ctor [1, 1, 1] [0, 1] [1, 2] [100, 100] = Inr (net_chain 0 0 0 0 0)"
  by (simp add: ANN_ctor_def Let_def net_chain_def ctor_ntype_def Connection_ctor_def
      Neuron_ctor_def upt_rec)

lemma setInput_chain: "setInput (net_chain 0 0 0 0 0) [1] = Some (0, net_chain 1 0 0 0 0)"
  by (simp add: setInput_def net_chain_def upt_rec)

lemma activate_chain_1: "activate (net_chain 1 0 0 0 0) = Some (net_chain 1 1 (1 / 2) 100 0)"
  by (simp add: activate_def net_chain_def activate_neuron_def sigmoid_AF_def upt_rec)

lemma activate_chain_2:
  "activate (net_chain 1 1 (1 / 2) 100 0) = Some (net_chain 1 1 1 100 100)"
  by (simp add: activate_def net_chain_def activate_neuron_def sigmoid_AF_def upt_rec)

lemma getOutput_chain: "getOutput (net_chain x h y d0 d1) = Some [y]"
  by (simp add: getOutput_def net_chain_def upt_rec)

lemma edges_chain:
  "map edge (connections (fullyConnectFF (net_chain x h y d0 d1))) = [(0, 1), (1, 2)] \<and>
   map edge (connections (net_chain x h y d0 d1)) = [(0, 1), (1, 2)]"
  by (simp add: fullyConnectFF_def net_chain_def edge_def Connection_ctor_def upt_rec)

lemma reachable_chain_1: "reachable (net_chain 1 1 (1 / 2) 100 0)"
proof -
  have "reachable (net_chain 0 0 0 0 0)" using ctor_chain by (rule reachable.r_ctor)
  then have "reachable (net_chain 1 0 0 0 0)" using setInput_chain by (rule reachable.r_setInput)
  then show ?thesis using activate_chain_1 by (rule reachable.r_activate)
qed

lemma ctor_221: "ANN_ctor [2, 2, 1] [] [] [] = Inr net_221_bare"
  by (simp add: ANN_ctor_def Let_def net_221_bare_def net_221_def ctor_ntype_def upt_rec)

lemma ctor_221_half:
  "ANN_ctor [2, 2, 1] [0, 0, 1, 1, 2, 3] [2, 3, 2, 3, 4, 4]
     [1 / 2, 1 / 2, 1 / 2, 1 / 2, 1 / 2, 1 / 2]
   = Inr (net_221 [1 / 2, 1 / 2, 1 / 2, 1 / 2, 1 / 2, 1 / 2])"
  by (simp add: ANN_ctor_def Let_def net_221_def ctor_ntype_def Connection_ctor_def upt_rec)

lemma fullyConnectFF_221: "fullyConnectFF net_221_bare = net_221 [0, 0, 0, 0, 0, 0]"
  by (simp add: fullyConnectFF_def net_221_bare_def net_221_def Connection_ctor_def upt_rec)

lemma rand_run_values:
  "rand_run 0 = 1804289383" "rand_run (Suc 0) = 846930886"
  "rand_run (Suc (Suc 0)) = 1681692777" "rand_run (Suc (Suc (Suc 0))) = 1714636915"
  "rand_run (Suc (Suc (Suc (Suc 0)))) = 1957747793"
  "rand_run (Suc (Suc (Suc (Suc (Suc 0))))) = 424238335"
  by (simp_all add: rand_run_def)

lemma randomizeW_221:
  "randomizeW 2147483647 rand_run 0 (net_221 [0, 0, 0, 0, 0, 0]) (- 1) 1
   = Some (0, net_221 drawn_weights, 6)"
  by (simp add: randomizeW_def net_221_def rand_run_values drawn_weights_def
      new_weight_run_0 new_weight_run_1 new_weight_run_2 new_weight_run_3 new_weight_run_4
      new_weight_run_5)

lemma randomizeW_top:
  "randomizeW 2147483647 rand_top 0 (net_1_1 0) (- 1) 1 = Some (0, net_1_1 1, 1)"
  by (simp add: randomizeW_def net_1_1_def rand_top_def new_weight_top)

lemma randomizeW_top_tenth:
  "randomizeW 2147483647 rand_top 0 (net_1_1 0) (- 3) tenth_double
   = Some (0, net_1_1 above_tenth, 1)"
  using new_weight_top_tenth
  by (simp add: randomizeW_def net_1_1_def rand_top_def tenth_double_def above_tenth_def)

lemma randomizeW_overflow:
  "randomizeW 2147483647 rand_top 0 (net_1_1 0) (- huge_double) huge_double = None"
proof -
  have "\<not> huge_double \<le> - huge_double" by (simp add: huge_double_def)
  then show ?thesis by (simp add: randomizeW_def net_1_1_def new_weight_overflow)
qed

lemma is_double_drawn: "list_all is_double drawn_weights"
  using new_weight_is_double [OF new_weight_run_0] new_weight_is_double [OF new_weight_run_1]
    new_weight_is_double [OF new_weight_run_2] new_weight_is_double [OF new_weight_run_3]
    new_weight_is_double [OF new_weight_run_4] new_weight_is_double [OF new_weight_run_5]
  by (simp add: drawn_weights_def)

lemma reload_221:
  assumes "\<forall>w\<in>set [a, b, c, d, e, f]. \<bar>w\<bar> < 2 ^ 1024"
  shows "reload net_221_bare (net_221 [a, b, c, d, e, f])
   = Some (0, net_221 (map round_double (map round_sig6 [a, b, c, d, e, f])))"
proof -
  let ?net = "net_221 [a, b, c, d, e, f]"
  have l: "length (neurons ?net) = unat (total_num_neurons ?net)"
    by (simp add: net_221_def)
  have m: "unat (total_num_connections ?net) \<le> length (connections ?net)"
    by (simp add: net_221_def)
  have "\<forall>c\<in>set (connections ?net). \<bar>weight c\<bar> < 2 ^ 1024"
    using assms by (simp add: net_221_def)
  then have "\<forall>c\<in>set (connections ?net). double_of (round_sig6 (weight c)) \<noteq> None"
    by (simp add: double_of_round_sig6)
  then have r: "\<forall>c\<in>set (take (unat (total_num_connections ?net)) (connections ?net)).
      double_of (round_sig6 (weight c)) \<noteq> None"
    by (meson in_set_takeD)
  show ?thesis
    unfolding reload_eq [OF l m r]
    by (simp add: net_221_def net_221_bare_def restored_connection_def Neuron_ctor_def)
qed

lemma reload_221_drawn:
  "reload net_221_bare (net_221 drawn_weights) = Some (0, net_221 restored_weights)"
proof -
  have "\<forall>w\<in>set drawn_weights. \<bar>w\<bar> < 2 ^ 1024"
    by (simp add: drawn_weights_def)
  then have "reload net_221_bare (net_221 drawn_weights)
        = Some (0, net_221 (map round_double (map round_sig6 drawn_weights)))"
    unfolding drawn_weights_def by (rule reload_221)
  then show ?thesis by (simp only: round_sig6_drawn round_double_written)
qed

lemma ctor_big: "ANN_ctor [255, 256, 1] [] [] [] = Inr net_big"
  by (simp add: ANN_ctor_def Let_def net_big_def)

lemma fullyConnectFF_big_length: "length (connections (fullyConnectFF net_big)) = 65536"
proof -
  have a: "unat (num_iPLUSh net_big) = unat (num_input net_big) + unat (num_hidden net_big)"
    by (simp add: net_big_def)
  have b: "unat (total_num_neurons net_big) = unat (num_iPLUSh net_big) + unat (num_output net_big)"
    by (simp add: net_big_def)
  from fullyConnectFF_layout [OF a b] show ?thesis by (simp add: net_big_def)
qed

lemma reload_big:
  "map_option (connections \<circ> snd) (reload net_big (fullyConnectFF net_big)) = Some []"
proof -
  have a: "length (neurons (fullyConnectFF net_big)) = unat (total_num_neurons (fullyConnectFF net_big))"
    by (simp add: fullyConnectFF_neurons net_big_def)
  have c: "total_num_connections (fullyConnectFF net_big) = 0"
    by (simp add: fullyConnectFF_def net_big_def)
  have b: "unat (total_num_connections (fullyConnectFF net_big))
           \<le> length (connections (fullyConnectFF net_big))"
    by (simp add: c)
  have r: "\<forall>c\<in>set (take (unat (total_num_connections (fullyConnectFF net_big)))
                       (connections (fullyConnectFF net_big))).
             double_of (round_sig6 (weight c)) \<noteq> None"
    by (simp add: c)
  show ?thesis
    unfolding reload_eq [OF a b r] by (simp add: c)
qed

lemma ctor_wrapped: "ANN_ctor [65535, 0, 2] [] [] [] = Inr net_wrapped"
  by (simp add: ANN_ctor_def Let_def net_wrapped_def ctor_ntype_def upt_rec)

lemma ctor_wrapped_ff: "ANN_ctor [65535, 1, 1] [] [] [] = Inr net_wrapped_ff"
  by (simp add: ANN_ctor_def Let_def net_wrapped_ff_def ctor_ntype_def upt_rec)

lemma deserialize_bad_header:
  "deserialize (net_1_1 1) (Some file_bad_header) = Some (0, net_bad_header)"
  by (simp add: deserialize_def file_bad_header_def net_bad_header_def net_1_1_def
      NeuronType_of_int_def)

lemma ctor_oob_target: "ANN_ctor [1, 1] [0] [2] [1] = Inr net_oob_target"
  by (simp add: ANN_ctor_def Let_def net_oob_target_def ctor_ntype_def Connection_ctor_def
      upt_rec)

lemma activate_oob_target: "activate net_oob_target = None"
  by (simp add: activate_def net_oob_target_def)

lemma deserialize_edge_0_3:
  "deserialize (net_1_1 1) (Some file_edge_0_3) = Some (0, net_edge_0_3)"
proof -
  have n: "deserialize_neurons 2
             [Int_tok 0, Int_tok 1, Int_tok 1, Int_tok 0, Int_tok 3, Int_tok 1]
           = Some ([Neuron_ctor INPUT_N, Neuron_ctor OUTPUT_N],
                   [Int_tok 1, Int_tok 0, Int_tok 3, Int_tok 1])"
    unfolding numeral_2_eq_2 by (simp add: NeuronType_of_int_def)
  show ?thesis
    by (simp add: deserialize_def file_edge_0_3_def net_edge_0_3_def net_1_1_def
        Connection_ctor_def double_of_1 n)
qed

lemma activate_edge_0_3: "activate net_edge_0_3 = None"
  by (simp add: activate_def net_edge_0_3_def)

section \<open>The claims\<close>

subsection \<open>Persistence round trip\<close>

text \<open>
  Claim C1, as the code has it. Let the network be one that the operations produce, let
  its recorded connection count be the length of its connection vector, and let every
  weight be a finite double. Then \<open>serialize\<close> into a file that can be created followed
  by \<open>deserialize\<close> of that file, on any object, returns 0 and leaves a network with the
  same five neuron counts, the same recorded connection count, the same sequence of
  neuron types and the same sequence of source and target indices. Each weight comes
  back as the double nearest to its text of six significant decimal digits, so the
  weights are the same whenever that leaves them unchanged.
\<close>

theorem reload_contract:
  assumes "reachable net"
    and "length (connections net) = unat (total_num_connections net)"
    and "\<forall>c\<in>set (connections net). is_double (weight c)"
  shows "\<exists>ts net'. serialize net True = Inr ts \<and> deserialize net0 (Some ts) = Some (0, net') \<and>
     num_input net' = num_input net \<and> num_hidden net' = num_hidden net \<and>
     num_output net' = num_output net \<and> num_iPLUSh net' = num_iPLUSh net \<and>
     total_num_neurons net' = total_num_neurons net \<and>
     total_num_connections net' = total_num_connections net \<and>
     map type (neurons net') = map type (neurons net) \<and>
     map source_neuron_idx (connections net') = map source_neuron_idx (connections net) \<and>
     map target_neuron_idx (connections net') = map target_neuron_idx (connections net) \<and>
     map weight (connections net') =
       map (\<lambda>c. round_double (round_sig6 (weight c))) (connections net) \<and>
     ((\<forall>c\<in>set (connections net). round_double (round_sig6 (weight c)) = weight c) \<longrightarrow>
        map weight (connections net') = map weight (connections net))"
proof -
  from reachable_neurons_inv [OF assms(1)] have
    len: "length (neurons net) = unat (total_num_neurons net)"
    by (simp add: neurons_inv_def)
  have le: "unat (total_num_connections net) \<le> length (connections net)"
    using assms(2) by simp
  have rd: "\<forall>c\<in>set (take (unat (total_num_connections net)) (connections net)).
              double_of (round_sig6 (weight c)) \<noteq> None"
  proof
    fix c assume "c \<in> set (take (unat (total_num_connections net)) (connections net))"
    then have "c \<in> set (connections net)" by (rule in_set_takeD)
    with assms(3) have "is_double (weight c)" by blast
    then have "\<bar>weight c\<bar> < 2 ^ 1024" using is_doubleD by blast
    from double_of_round_sig6 [OF this] show "double_of (round_sig6 (weight c)) \<noteq> None"
      by simp
  qed
  obtain ts where ts: "serialize net True = Inr ts" by (simp add: serialize_def)
  let ?net' = "net0\<lparr>num_input := num_input net, num_hidden := num_hidden net,
                    num_output := num_output net, num_iPLUSh := num_iPLUSh net,
                    total_num_neurons := total_num_neurons net,
                    neurons := map (\<lambda>nr. Neuron_ctor (type nr)) (neurons net),
                    total_num_connections := total_num_connections net,
                    connections := map restored_connection
                      (take (unat (total_num_connections net)) (connections net))\<rparr>"
  have d: "deserialize net0 (Some ts) = Some (0, ?net')"
    using reload_eq [OF len le rd, of net0] ts by (simp add: reload_def)
  have w: "(\<forall>c\<in>set (connections net). round_double (round_sig6 (weight c)) = weight c) \<longrightarrow>
        map (\<lambda>c. round_double (round_sig6 (weight c))) (connections net)
          = map weight (connections net)"
    by (simp add: map_eq_conv)
  show ?thesis
    using ts d w assms(2)
    by (simp add: comp_def restored_connection_def Neuron_ctor_def)
qed

text \<open>
  The premises of C1 hold for the fully connected network with weights 1/2, and the
  weights come back as they were.
\<close>

theorem reload_contract_witness:
  "reachable (net_221 [1 / 2, 1 / 2, 1 / 2, 1 / 2, 1 / 2, 1 / 2]) \<and>
   length (connections (net_221 [1 / 2, 1 / 2, 1 / 2, 1 / 2, 1 / 2, 1 / 2])) =
     unat (total_num_connections (net_221 [1 / 2, 1 / 2, 1 / 2, 1 / 2, 1 / 2, 1 / 2])) \<and>
   map weight (connections (net_221 [1 / 2, 1 / 2, 1 / 2, 1 / 2, 1 / 2, 1 / 2]))
     = [1 / 2, 1 / 2, 1 / 2, 1 / 2, 1 / 2, 1 / 2] \<and>
   is_double (1 / 2) \<and>
   (\<exists>ts net'. serialize (net_221 [1 / 2, 1 / 2, 1 / 2, 1 / 2, 1 / 2, 1 / 2]) True = Inr ts \<and>
      deserialize net_221_bare (Some ts) = Some (0, net') \<and>
      total_num_neurons net' = 5 \<and>
      map type (neurons net') = [INPUT_N, INPUT_N, HIDDEN_N, HIDDEN_N, OUTPUT_N] \<and>
      map weight (connections net') = [1 / 2, 1 / 2, 1 / 2, 1 / 2, 1 / 2, 1 / 2])"
proof -
  let ?net = "net_221 [1 / 2, 1 / 2, 1 / 2, 1 / 2, 1 / 2, 1 / 2]"
  have r: "reachable ?net"
    using ctor_221_half by (rule reachable.r_ctor)
  have l: "length (connections ?net) = unat (total_num_connections ?net)"
    by (simp add: net_221_def)
  have v: "map weight (connections ?net) = [1 / 2, 1 / 2, 1 / 2, 1 / 2, 1 / 2, 1 / 2]"
    by (simp add: net_221_def)
  have f: "\<forall>c\<in>set (connections ?net). is_double (weight c)"
    by (simp add: net_221_def is_double_half)
  have w: "map (\<lambda>c. round_double (round_sig6 (weight c))) (connections ?net)
           = [1 / 2, 1 / 2, 1 / 2, 1 / 2, 1 / 2, 1 / 2]"
    by (simp add: net_221_def round_sig6_half round_double_half)
  have t: "total_num_neurons ?net = 5" by (simp add: net_221_def)
  have y: "map type (neurons ?net) = [INPUT_N, INPUT_N, HIDDEN_N, HIDDEN_N, OUTPUT_N]"
    by (simp add: net_221_def Neuron_ctor_def)
  from reload_contract [OF r l f, of net_221_bare] obtain ts net' where
    "serialize ?net True = Inr ts"
    "deserialize net_221_bare (Some ts) = Some (0, net')"
    "total_num_neurons net' = total_num_neurons ?net"
    "map type (neurons net') = map type (neurons ?net)"
    "map weight (connections net')
       = map (\<lambda>c. round_double (round_sig6 (weight c))) (connections ?net)"
    by blast
  with r l v w t y is_double_half show ?thesis by auto
qed

text \<open>
  C1 as stated fails twice. The network with 2 input, 2 hidden and 1 output neurons,
  fully connected and randomized over -1 and 1 from the six values of \<open>rand()\<close>, has
  weights such as \<open>0.680375434309419\<close>; they are written as \<open>0.680375\<close>, \<open>-0.211234\<close>
  and so on, and the weights read back are the doubles nearest to these texts, none of
  which is the weight written. The network with 255 input, 256 hidden and 1 output
  neurons has 65536 connections once fully connected, its recorded count wraps to 0, and
  none of the connections is read back.
\<close>

theorem reload_counterexample:
  "ANN_ctor [2, 2, 1] [] [] [] = Inr net_221_bare \<and>
   fullyConnectFF net_221_bare = net_221 [0, 0, 0, 0, 0, 0] \<and>
   randomizeW 2147483647 rand_run 0 (net_221 [0, 0, 0, 0, 0, 0]) (- 1) 1
     = Some (0, net_221 drawn_weights, 6) \<and>
   list_all is_double drawn_weights \<and>
   map round_sig6 drawn_weights = written_weights \<and>
   reload net_221_bare (net_221 drawn_weights) = Some (0, net_221 restored_weights) \<and>
   map weight (connections (net_221 drawn_weights)) = drawn_weights \<and>
   map weight (connections (net_221 restored_weights)) = restored_weights \<and>
   restored_weights \<noteq> drawn_weights \<and>
   ANN_ctor [255, 256, 1] [] [] [] = Inr net_big \<and>
   length (connections (fullyConnectFF net_big)) = 65536 \<and>
   map_option (connections \<circ> snd) (reload net_big (fullyConnectFF net_big)) = Some []"
proof -
  have d: "map weight (connections (net_221 drawn_weights)) = drawn_weights"
    by (simp add: net_221_def drawn_weights_def)
  have r: "map weight (connections (net_221 restored_weights)) = restored_weights"
    by (simp add: net_221_def restored_weights_def)
  have ne: "restored_weights \<noteq> drawn_weights"
    by (simp add: restored_weights_def drawn_weights_def)
  show ?thesis
    using ctor_221 fullyConnectFF_221 randomizeW_221 is_double_drawn round_sig6_drawn
      reload_221_drawn d r ne
      ctor_big fullyConnectFF_big_length reload_big
    by simp
qed

subsection \<open>Index validation of the constructor\<close>

text \<open>
  Claim C2 asks that an index equal to \<open>total_num_neurons\<close> makes construction fail.
  The constructor tests \<open>c_src[c] > total_num_neurons\<close>: with two neurons it accepts the
  index 2 as source or as target, builds the network, and \<open>activate\<close> then reads outside
  the neuron vector; the index 3 is refused.
\<close>

theorem ctor_accepts_index_total:
  "ANN_ctor [1, 1] [2] [0] [1] = Inr net_oob \<and>
   ANN_ctor [1, 1] [0] [2] [1] =
     Inr (net_oob\<lparr>connections :=
            [\<lparr>source_neuron_idx = 0, target_neuron_idx = 2, weight = 1, data = 0\<rparr>]\<rparr>) \<and>
   unat (total_num_neurons net_oob) = 2 \<and> length (neurons net_oob) = 2 \<and>
   unat (source_neuron_idx (connections net_oob ! 0)) = 2 \<and>
   activate net_oob = None \<and>
   ANN_ctor [1, 1] [3] [0] [1] = Inl ConfigError"
  by (simp add: ANN_ctor_def Let_def net_oob_def ctor_ntype_def Connection_ctor_def
      activate_def upt_rec)

text \<open>The network built from the index 2 has a source index that is no neuron's.\<close>

theorem ctor_accepts_index_total_witness:
  "\<exists>net. ANN_ctor [1, 1] [2] [0] [1] = Inr net \<and>
     unat (source_neuron_idx (connections net ! 0)) = length (neurons net) \<and>
     activate net = None"
  using ctor_accepts_index_total by auto

subsection \<open>Weight randomization\<close>

text \<open>
  Claim C3, as the code has it. Let \<open>minv < maxv\<close>, let \<open>minv\<close> be a double, let both
  bounds have a magnitude of at most \<open>2 ^ 900\<close>, so that no operation overflows, and let
  \<open>rand()\<close> return values between 0 and \<open>RAND_MAX\<close>, where \<open>0 < RAND_MAX \<le> 2 ^ 64\<close>.
  Then \<open>randomizeW\<close> returns 0, calls \<open>rand()\<close> once per connection and gives connection
  \<open>i\<close> the double that \<open>(maxv - minv) * rand() / RAND_MAX + minv\<close> evaluates to, changing
  nothing else; that weight is a finite double and at least \<open>minv\<close>. Nothing keeps it
  below \<open>maxv\<close>. If \<open>minv \<ge> maxv\<close> it returns -1 and the network is unchanged.
\<close>

theorem randomizeW_contract:
  "(minv < maxv \<and> is_double minv \<and> \<bar>minv\<bar> \<le> 2 ^ 900 \<and> \<bar>maxv\<bar> \<le> 2 ^ 900 \<and>
    0 < rand_max \<and> rand_max \<le> 2 ^ 64 \<and> (\<forall>j. rnd j \<le> rand_max) \<longrightarrow>
      (\<exists>cs. randomizeW rand_max rnd k net minv maxv =
              Some (0, net\<lparr>connections := cs\<rparr>, k + length (connections net)) \<and>
            length cs = length (connections net) \<and>
            (\<forall>i<length cs.
               cs ! i = (connections net ! i)\<lparr>weight := weight (cs ! i)\<rparr> \<and>
               new_weight rand_max (rnd (k + i)) minv maxv = Some (weight (cs ! i)) \<and>
               is_double (weight (cs ! i)) \<and> minv \<le> weight (cs ! i)))) \<and>
   (minv \<ge> maxv \<longrightarrow> randomizeW rand_max rnd k net minv maxv = Some (- 1, net, k))"
proof (intro conjI impI)
  assume a: "minv < maxv \<and> is_double minv \<and> \<bar>minv\<bar> \<le> 2 ^ 900 \<and> \<bar>maxv\<bar> \<le> 2 ^ 900 \<and>
    0 < rand_max \<and> rand_max \<le> 2 ^ 64 \<and> (\<forall>j. rnd j \<le> rand_max)"
  then have m: "round_double minv = minv" by (simp add: is_doubleD)
  have b: "\<exists>w. new_weight rand_max (rnd j) minv maxv = Some w \<and> minv \<le> w" for j
    using a m by (intro new_weight_defined) simp_all
  then have "\<forall>j. \<exists>w. new_weight rand_max (rnd j) minv maxv = Some w" by blast
  from randomizeW_loop_Some [OF this, of k "connections net"] obtain cs where
    l: "randomizeW_loop rand_max rnd k minv maxv (connections net)
          = Some (cs, k + length (connections net))" and
    n: "length cs = length (connections net)" and
    v: "\<forall>i<length (connections net).
          cs ! i = (connections net ! i)\<lparr>weight := weight (cs ! i)\<rparr> \<and>
          new_weight rand_max (rnd (k + i)) minv maxv = Some (weight (cs ! i))"
    by blast
  have r: "randomizeW rand_max rnd k net minv maxv =
              Some (0, net\<lparr>connections := cs\<rparr>, k + length (connections net))"
    using a l by (simp add: randomizeW_def)
  have "\<forall>i<length cs.
               cs ! i = (connections net ! i)\<lparr>weight := weight (cs ! i)\<rparr> \<and>
               new_weight rand_max (rnd (k + i)) minv maxv = Some (weight (cs ! i)) \<and>
               is_double (weight (cs ! i)) \<and> minv \<le> weight (cs ! i)"
  proof (intro allI impI)
    fix i assume "i < length cs"
    with v n have
      c: "cs ! i = (connections net ! i)\<lparr>weight := weight (cs ! i)\<rparr>" and
      w: "new_weight rand_max (rnd (k + i)) minv maxv = Some (weight (cs ! i))"
      by simp_all
    from b [of "k + i"] w have "minv \<le> weight (cs ! i)" by auto
    moreover from w have "is_double (weight (cs ! i))" by (rule new_weight_is_double)
    ultimately show "cs ! i = (connections net ! i)\<lparr>weight := weight (cs ! i)\<rparr> \<and>
               new_weight rand_max (rnd (k + i)) minv maxv = Some (weight (cs ! i)) \<and>
               is_double (weight (cs ! i)) \<and> minv \<le> weight (cs ! i)"
      using c w by blast
  qed
  with r n show "\<exists>cs. randomizeW rand_max rnd k net minv maxv =
              Some (0, net\<lparr>connections := cs\<rparr>, k + length (connections net)) \<and>
            length cs = length (connections net) \<and>
            (\<forall>i<length cs.
               cs ! i = (connections net ! i)\<lparr>weight := weight (cs ! i)\<rparr> \<and>
               new_weight rand_max (rnd (k + i)) minv maxv = Some (weight (cs ! i)) \<and>
               is_double (weight (cs ! i)) \<and> minv \<le> weight (cs ! i))"
    by blast
next
  show "maxv \<le> minv \<Longrightarrow> randomizeW rand_max rnd k net minv maxv = Some (- 1, net, k)"
    by (simp add: randomizeW_def)
qed

text \<open>Both cases of C3 on the network with one connection.\<close>

theorem randomizeW_contract_witness:
  "(- 1 :: real) < 1 \<and> is_double (- 1) \<and> rand_low 0 \<le> 2147483647 \<and>
   (\<exists>cs. randomizeW 2147483647 rand_low 0 (net_1_1 0) (- 1) 1
            = Some (0, (net_1_1 0)\<lparr>connections := cs\<rparr>, 1) \<and>
         is_double (weight (cs ! 0)) \<and> - 1 \<le> weight (cs ! 0)) \<and>
   (1 :: real) \<ge> 1 \<and>
   randomizeW 2147483647 rand_low 0 (net_1_1 0) 1 1 = Some (- 1, net_1_1 0, 0)"
  using randomizeW_contract [of "- 1" 1 2147483647 rand_low 0 "net_1_1 0"]
        randomizeW_contract [of 1 1 2147483647 rand_low 0 "net_1_1 0"]
  by (auto simp: rand_low_def net_1_1_def is_double_minus_1)

text \<open>
  C3 as stated keeps every weight below \<open>maxv\<close>. When \<open>rand()\<close> returns \<open>RAND_MAX\<close> the
  new weight over -1 and 1 is 1, which is \<open>maxv\<close>; and over -3 and the double nearest to
  0.1 it is \<open>0.10000000000000009\<close>, which is above \<open>maxv\<close>, the sum having been rounded.
  Over \<open>-1e308\<close> and \<open>1e308\<close> the difference of the bounds is beyond the range of the
  doubles: the code assigns infinities or NaN, and no weight results in the model.
\<close>

theorem randomizeW_counterexample:
  "ANN_ctor [1, 1] [0] [1] [0] = Inr (net_1_1 0) \<and>
   rand_top 0 = 2147483647 \<and>
   randomizeW 2147483647 rand_top 0 (net_1_1 0) (- 1) 1 = Some (0, net_1_1 1, 1) \<and>
   map weight (connections (net_1_1 1)) = [1] \<and>
   is_double tenth_double \<and> - 3 < tenth_double \<and>
   randomizeW 2147483647 rand_top 0 (net_1_1 0) (- 3) tenth_double
     = Some (0, net_1_1 above_tenth, 1) \<and>
   map weight (connections (net_1_1 above_tenth)) = [above_tenth] \<and>
   tenth_double < above_tenth \<and>
   is_double huge_double \<and> - huge_double < huge_double \<and>
   randomizeW 2147483647 rand_top 0 (net_1_1 0) (- huge_double) huge_double = None"
proof -
  have "is_double tenth_double"
    using double_of_eval [of "- 4" tenth_double]
    by (simp add: is_double_def tenth_double_def round_half_even_def Let_def power_int_minus)
  moreover have "- 3 < tenth_double" "tenth_double < above_tenth"
    by (simp_all add: tenth_double_def above_tenth_def)
  moreover have "- huge_double < huge_double" by (simp add: huge_double_def)
  ultimately show ?thesis
    using ctor_1_1 [of 0] randomizeW_top randomizeW_top_tenth is_double_huge
      randomizeW_overflow
    by (simp add: net_1_1_def rand_top_def)
qed

subsection \<open>Reading the outputs\<close>

text \<open>
  Claim C4, as the code has it. For a network that the operations produce and whose
  \<open>total_num_neurons\<close> is the sum of \<open>num_iPLUSh\<close> and \<open>num_output\<close>, \<open>getOutput\<close>
  returns a sequence of length \<open>num_output\<close> whose \<open>k\<close>-th entry is the output of
  neuron \<open>num_iPLUSh + k\<close>.
\<close>

theorem getOutput_contract:
  assumes "reachable net"
    and "unat (total_num_neurons net) = unat (num_iPLUSh net) + unat (num_output net)"
  shows "\<exists>outs. getOutput net = Some outs \<and> length outs = unat (num_output net) \<and>
     (\<forall>k<unat (num_output net). outs ! k = output_val (neurons net ! (unat (num_iPLUSh net) + k)))"
proof -
  from reachable_neurons_inv [OF assms(1)] have
    len: "unat (total_num_neurons net) \<le> length (neurons net)"
    by (simp add: neurons_inv_def)
  from getOutput_Some [OF len] assms(2) show ?thesis by simp
qed

text \<open>The premises of C4 hold for the network with one connection.\<close>

theorem getOutput_contract_witness:
  "reachable (net_1_1 1) \<and>
   unat (total_num_neurons (net_1_1 1)) =
     unat (num_iPLUSh (net_1_1 1)) + unat (num_output (net_1_1 1)) \<and>
   (\<exists>outs. getOutput (net_1_1 1) = Some outs \<and> length outs = 1 \<and> outs ! 0 = 0)"
proof -
  have h: "unat (total_num_neurons (net_1_1 1)) =
     unat (num_iPLUSh (net_1_1 1)) + unat (num_output (net_1_1 1))"
    by (simp add: net_1_1_def)
  from getOutput_contract [OF reachable_1_1 h] reachable_1_1 h show ?thesis
    by (simp add: getOutput_1_1)
qed

text \<open>
  C4 as stated covers every network, restored ones included. \<open>deserialize\<close> stores the
  header as read: from a file announcing five output neurons and one neuron in all,
  \<open>getOutput\<close> returns one value. The constructor wraps the sum of the counts
  \<open>[65535, 0, 2]\<close> to one neuron, and \<open>getOutput\<close> returns no value for two output
  neurons.
\<close>

theorem getOutput_counterexample:
  "deserialize (net_1_1 1) (Some file_bad_header) = Some (0, net_bad_header) \<and>
   unat (num_output net_bad_header) = 5 \<and>
   getOutput net_bad_header = Some [0] \<and>
   ANN_ctor [65535, 0, 2] [] [] [] = Inr net_wrapped \<and>
   unat (num_output net_wrapped) = 2 \<and>
   getOutput net_wrapped = Some []"
  using deserialize_bad_header ctor_wrapped
  by (simp add: getOutput_def net_bad_header_def net_wrapped_def Neuron_ctor_def upt_rec)

subsection \<open>Two passes in a row\<close>

text \<open>
  Claim C5, as the code has it. Let the network be one that the operations produce, let
  a call of \<open>activate\<close> return, and let the source of every connection be an input
  neuron or a neuron whose output that call has left as it was. Then a second call
  returns as well, and every neuron's output, hence the result of \<open>getOutput\<close>, is the
  same after both calls.
\<close>

theorem activate_twice:
  assumes "reachable net"
    and "activate net = Some net1"
    and "\<forall>c\<in>set (connections net).
           unat (source_neuron_idx c) < unat (num_input net) \<or>
           output_val (neurons net1 ! unat (source_neuron_idx c))
             = output_val (neurons net ! unat (source_neuron_idx c))"
  shows "\<exists>net2 outs. activate net1 = Some net2 \<and>
           map output_val (neurons net2) = map output_val (neurons net1) \<and>
           getOutput net1 = Some outs \<and> getOutput net2 = Some outs"
  using activate_twice_settled [OF assms] .

text \<open>
  The premises of C5 hold for the chain of three neurons once the hidden neuron has its
  value: the input neuron is a source, and the call leaves the hidden neuron's output 1.
\<close>

theorem activate_twice_witness:
  "reachable (net_chain 1 1 (1 / 2) 100 0) \<and>
   activate (net_chain 1 1 (1 / 2) 100 0) = Some (net_chain 1 1 1 100 100) \<and>
   unat (source_neuron_idx (connections (net_chain 1 1 (1 / 2) 100 0) ! 0))
     < unat (num_input (net_chain 1 1 (1 / 2) 100 0)) \<and>
   output_val (neurons (net_chain 1 1 1 100 100) ! 1)
     = output_val (neurons (net_chain 1 1 (1 / 2) 100 0) ! 1) \<and>
   getOutput (net_chain 1 1 1 100 100) = Some [1] \<and>
   (\<exists>net2. activate (net_chain 1 1 1 100 100) = Some net2 \<and> getOutput net2 = Some [1])"
proof -
  let ?net = "net_chain 1 1 (1 / 2) 100 0" and ?net1 = "net_chain 1 1 1 100 100"
  have s: "\<forall>c\<in>set (connections ?net).
           unat (source_neuron_idx c) < unat (num_input ?net) \<or>
           output_val (neurons ?net1 ! unat (source_neuron_idx c))
             = output_val (neurons ?net ! unat (source_neuron_idx c))"
    by (simp add: net_chain_def)
  have i: "unat (source_neuron_idx (connections ?net ! 0)) < unat (num_input ?net)"
    by (simp add: net_chain_def)
  have h: "output_val (neurons ?net1 ! 1) = output_val (neurons ?net ! 1)"
    by (simp add: net_chain_def)
  from activate_twice [OF reachable_chain_1 activate_chain_2 s] obtain net2 outs where
    "activate ?net1 = Some net2" "getOutput ?net1 = Some outs" "getOutput net2 = Some outs"
    by blast
  then have "\<exists>net2. activate ?net1 = Some net2 \<and> getOutput net2 = Some [1]"
    by (auto simp: getOutput_chain)
  with reachable_chain_1 activate_chain_2 i h show ?thesis
    by (simp add: getOutput_chain)
qed

text \<open>
  C5 as stated covers every feedforward topology. \<open>activate\<close> computes every connection's
  value from the outputs of the preceding call before it activates any neuron. In the
  chain input, hidden, output (the edges that \<open>fullyConnectFF\<close> makes) with weights 100
  and input 1, the first call changes the hidden neuron's output from 0 to 1, and the
  output neuron is 1/2 after the first call and 1 after the second.
\<close>

theorem activate_twice_counterexample:
  "ANN_ctor [1, 1, 1] [0, 1] [1, 2] [100, 100] = Inr (net_chain 0 0 0 0 0) \<and>
   map edge (connections (net_chain 0 0 0 0 0)) =
     map edge (connections (fullyConnectFF (net_chain 0 0 0 0 0))) \<and>
   setInput (net_chain 0 0 0 0 0) [1] = Some (0, net_chain 1 0 0 0 0) \<and>
   activate (net_chain 1 0 0 0 0) = Some (net_chain 1 1 (1 / 2) 100 0) \<and>
   getOutput (net_chain 1 1 (1 / 2) 100 0) = Some [1 / 2] \<and>
   activate (net_chain 1 1 (1 / 2) 100 0) = Some (net_chain 1 1 1 100 100) \<and>
   getOutput (net_chain 1 1 1 100 100) = Some [1]"
  using ctor_chain setInput_chain activate_chain_1 activate_chain_2 edges_chain [of 0 0 0 0 0]
  by (simp add: getOutput_chain)

subsection \<open>Fully connecting\<close>

text \<open>
  Claim C6, as the code has it. Let \<open>num_iPLUSh\<close> be the sum of \<open>num_input\<close> and
  \<open>num_hidden\<close>, and \<open>total_num_neurons\<close> the sum of \<open>num_iPLUSh\<close> and \<open>num_output\<close>.
  Then the connections of \<open>fullyConnectFF\<close>, whatever the connections were before, are
  one edge from each input to each hidden neuron followed by one edge from each hidden
  to each output neuron, in the order of the loops, each of weight 0 and none twice;
  their number is \<open>num_hidden * (num_input + num_output)\<close>, and there is none without
  hidden neurons.
\<close>

theorem fullyConnectFF_contract:
  assumes "unat (num_iPLUSh net) = unat (num_input net) + unat (num_hidden net)"
    and "unat (total_num_neurons net) = unat (num_iPLUSh net) + unat (num_output net)"
  shows "map edge (connections (fullyConnectFF net)) =
           List.product [0..<unat (num_input net)]
             [unat (num_input net)..<unat (num_input net) + unat (num_hidden net)]
           @ List.product
               [unat (num_input net)..<unat (num_input net) + unat (num_hidden net)]
               [unat (num_input net) + unat (num_hidden net)..<
                  unat (num_input net) + unat (num_hidden net) + unat (num_output net)] \<and>
         (\<forall>c\<in>set (connections (fullyConnectFF net)). weight c = 0) \<and>
         length (connections (fullyConnectFF net)) =
           unat (num_hidden net) * (unat (num_input net) + unat (num_output net)) \<and>
         distinct (map edge (connections (fullyConnectFF net))) \<and>
         (unat (num_hidden net) = 0 \<longrightarrow> connections (fullyConnectFF net) = [])"
  using fullyConnectFF_layout [OF assms] .

text \<open>The premises of C6 hold for 2 input, 2 hidden and 1 output neurons.\<close>

theorem fullyConnectFF_contract_witness:
  "unat (num_iPLUSh net_221_bare) = unat (num_input net_221_bare) + unat (num_hidden net_221_bare) \<and>
   unat (total_num_neurons net_221_bare) =
     unat (num_iPLUSh net_221_bare) + unat (num_output net_221_bare) \<and>
   map edge (connections (fullyConnectFF net_221_bare)) =
     [(0, 2), (0, 3), (1, 2), (1, 3), (2, 4), (3, 4)] \<and>
   length (connections (fullyConnectFF net_221_bare)) = 6"
proof -
  have a: "unat (num_iPLUSh net_221_bare) =
      unat (num_input net_221_bare) + unat (num_hidden net_221_bare)"
    by (simp add: net_221_bare_def net_221_def)
  have b: "unat (total_num_neurons net_221_bare) =
     unat (num_iPLUSh net_221_bare) + unat (num_output net_221_bare)"
    by (simp add: net_221_bare_def net_221_def)
  from fullyConnectFF_contract [OF a b] a b show ?thesis
    by (simp add: net_221_bare_def net_221_def upt_rec)
qed

text \<open>
  C6 as stated covers every network. From the counts \<open>[65535, 1, 1]\<close> the constructor
  stores \<open>num_iPLUSh = 0\<close>, the sum wrapped to 16 bits; no loop of \<open>fullyConnectFF\<close> runs
  and there is no connection where the product of the counts is 65536.
\<close>

theorem fullyConnectFF_counterexample:
  "ANN_ctor [65535, 1, 1] [] [] [] = Inr net_wrapped_ff \<and>
   unat (num_hidden net_wrapped_ff) * (unat (num_input net_wrapped_ff) + unat (num_output net_wrapped_ff)) = 65536 \<and>
   connections (fullyConnectFF net_wrapped_ff) = []"
  using ctor_wrapped_ff by (simp add: fullyConnectFF_def net_wrapped_ff_def)

subsection \<open>The activation function\<close>

text \<open>
  Claim C7. The activation function returns exactly 0 below \<open>-15\<close>, exactly 1 above
  \<open>15\<close>, and the logistic value \<open>1 / (1 + e\<^sup>-\<^sup>x)\<close> otherwise; a neuron whose
  \<open>input_sum\<close> is 100, -100 or 0 is activated to exactly 1, 0 and 1/2.
\<close>

theorem sigmoid_AF_saturation:
  "(x < - 15 \<longrightarrow> sigmoid_AF x = 0) \<and>
   (x > 15 \<longrightarrow> sigmoid_AF x = 1) \<and>
   (- 15 \<le> x \<and> x \<le> 15 \<longrightarrow> sigmoid_AF x = 1 / (1 + exp (- x))) \<and>
   output_val (activate_neuron (nr\<lparr>input_sum := 100\<rparr>)) = 1 \<and>
   output_val (activate_neuron (nr\<lparr>input_sum := - 100\<rparr>)) = 0 \<and>
   output_val (activate_neuron (nr\<lparr>input_sum := 0\<rparr>)) = 1 / 2"
  by (simp add: sigmoid_AF_def activate_neuron_def)

text \<open>The three cases of C7 at -16, 16 and 0.\<close>

theorem sigmoid_AF_saturation_witness:
  "(- 16 :: real) < - 15 \<and> sigmoid_AF (- 16) = 0 \<and>
   (16 :: real) > 15 \<and> sigmoid_AF 16 = 1 \<and>
   - 15 \<le> (0 :: real) \<and> (0 :: real) \<le> 15 \<and> sigmoid_AF 0 = 1 / (1 + exp (- 0))"
  using sigmoid_AF_saturation [of "- 16" "Neuron_ctor INPUT_N"]
        sigmoid_AF_saturation [of 16 "Neuron_ctor INPUT_N"]
        sigmoid_AF_saturation [of 0 "Neuron_ctor INPUT_N"]
  by simp

subsection \<open>A concrete forward pass\<close>

text \<open>
  Claim C8. The network with one input and one output neuron, no hidden neuron and the
  single connection from neuron 0 to neuron 1 with weight 1 is built by the constructor;
  after \<open>setInput [0]\<close> and \<open>activate\<close>, \<open>getOutput\<close> returns \<open>[1/2]\<close>. The two-element and
  the three-element form of the neuron counts give the same network.
\<close>

theorem one_connection_scenario:
  "\<exists>net net1 net2.
     ANN_ctor [1, 0, 1] [0] [1] [1] = Inr net \<and>
     ANN_ctor [1, 1] [0] [1] [1] = Inr net \<and>
     setInput net [0] = Some (0, net1) \<and>
     activate net1 = Some net2 \<and>
     getOutput net2 = Some [1 / 2]"
  by (simp add: ANN_ctor_def Let_def Connection_ctor_def Neuron_ctor_def ctor_ntype_def
      setInput_def activate_def activate_neuron_def sigmoid_AF_def getOutput_def upt_rec)

text \<open>The scenario of C8 from the two-element form of the counts.\<close>

theorem one_connection_scenario_witness:
  "\<exists>net2. (\<exists>net net1. ANN_ctor [1, 1] [0] [1] [1] = Inr net \<and>
              setInput net [0] = Some (0, net1) \<and> activate net1 = Some net2) \<and>
          getOutput net2 = Some [1 / 2]"
  using one_connection_scenario by blast

subsection \<open>Binding the inputs\<close>

text \<open>
  Claim C9, as the code has it. If the length of the vector differs from \<open>num_input\<close>,
  \<open>setInput\<close> returns -1 and the network is unchanged. If the length is \<open>num_input\<close>
  and the network holds at least \<open>num_input\<close> neurons, it returns 0, changes nothing but
  the neurons, and neuron \<open>n\<close> below \<open>num_input\<close> has the \<open>n\<close>-th value as output and is
  otherwise unchanged, as is every other neuron.
\<close>

theorem setInput_contract:
  "(length inputs \<noteq> unat (num_input net) \<longrightarrow> setInput net inputs = Some (- 1, net)) \<and>
   (length inputs = unat (num_input net) \<and> unat (num_input net) \<le> length (neurons net) \<longrightarrow>
      (\<exists>ns'. setInput net inputs = Some (0, net\<lparr>neurons := ns'\<rparr>) \<and>
         length ns' = length (neurons net) \<and>
         (\<forall>n<length (neurons net). ns' ! n =
            (if n < unat (num_input net) then (neurons net ! n)\<lparr>output_val := inputs ! n\<rparr>
             else neurons net ! n))))"
proof (intro conjI impI)
  show "length inputs \<noteq> unat (num_input net) \<Longrightarrow> setInput net inputs = Some (- 1, net)"
    by (simp add: setInput_def)
next
  assume a: "length inputs = unat (num_input net) \<and> unat (num_input net) \<le> length (neurons net)"
  then have "\<forall>n\<in>set [0..<unat (num_input net)]. n < length (neurons net) \<and> n < length inputs"
    by auto
  from setInput_loop_Some [OF this] obtain ns' where
    s: "setInput_loop [0..<unat (num_input net)] inputs (neurons net) = Some ns'" and
    l: "length ns' = length (neurons net)" and
    v: "\<forall>n<length (neurons net). ns' ! n =
        (if n \<in> set [0..<unat (num_input net)] then (neurons net ! n)\<lparr>output_val := inputs ! n\<rparr>
         else neurons net ! n)"
    by blast
  have "setInput net inputs = Some (0, net\<lparr>neurons := ns'\<rparr>)"
    using a s by (simp add: setInput_def)
  then show "\<exists>ns'. setInput net inputs = Some (0, net\<lparr>neurons := ns'\<rparr>) \<and>
         length ns' = length (neurons net) \<and>
         (\<forall>n<length (neurons net). ns' ! n =
            (if n < unat (num_input net) then (neurons net ! n)\<lparr>output_val := inputs ! n\<rparr>
             else neurons net ! n))"
    using l v by auto
qed

text \<open>Both cases of C9 on the network with one connection.\<close>

theorem setInput_contract_witness:
  "length [0 :: real] = unat (num_input (net_1_1 1)) \<and>
   unat (num_input (net_1_1 1)) \<le> length (neurons (net_1_1 1)) \<and>
   (\<exists>ns'. setInput (net_1_1 1) [0] = Some (0, (net_1_1 1)\<lparr>neurons := ns'\<rparr>) \<and>
          output_val (ns' ! 0) = 0 \<and> ns' ! 1 = neurons (net_1_1 1) ! 1) \<and>
   length [0, 0 :: real] \<noteq> unat (num_input (net_1_1 1)) \<and>
   setInput (net_1_1 1) [0, 0] = Some (- 1, net_1_1 1)"
  using setInput_contract [of "[0]" "net_1_1 1"] setInput_contract [of "[0, 0]" "net_1_1 1"]
  by (auto simp: net_1_1_def)

text \<open>
  C9 as stated covers every network. From the counts \<open>[65535, 0, 2]\<close> the constructor
  keeps \<open>num_input = 65535\<close> and builds one neuron; a vector of 65535 values passes the
  length test and the loop writes beyond the neuron vector.
\<close>

theorem setInput_counterexample:
  "ANN_ctor [65535, 0, 2] [] [] [] = Inr net_wrapped \<and>
   length (replicate 65535 (0::real)) = unat (num_input net_wrapped) \<and>
   setInput net_wrapped (replicate 65535 0) = None"
proof -
  have a: "length (replicate 65535 (0::real)) = unat (num_input net_wrapped)"
    by (simp add: net_wrapped_def)
  have b: "length (neurons net_wrapped) < unat (num_input net_wrapped)"
    by (simp add: net_wrapped_def)
  show ?thesis using ctor_wrapped a setInput_out_of_range [OF a b] by simp
qed

subsection \<open>What a pass leaves unchanged\<close>

text \<open>
  Claim C10, as the code has it. For every network that the operations produce and whose
  connections all have a source and a target index below \<open>total_num_neurons\<close>,
  \<open>activate\<close> returns, and on return: the source index, target index and weight of
  every connection are unchanged; the output of every neuron below \<open>num_input\<close> is
  unchanged; the accumulator of every neuron from \<open>num_input\<close> on is 0; the number and
  the types of the neurons and every field of the network other than \<open>connections\<close> and
  \<open>neurons\<close> are unchanged.
\<close>

theorem activate_frame:
  assumes "reachable net"
    and "\<forall>c\<in>set (connections net).
           unat (source_neuron_idx c) < unat (total_num_neurons net) \<and>
           unat (target_neuron_idx c) < unat (total_num_neurons net)"
  shows "\<exists>net'. activate net = Some net' \<and>
        map source_neuron_idx (connections net') = map source_neuron_idx (connections net) \<and>
        map target_neuron_idx (connections net') = map target_neuron_idx (connections net) \<and>
        map weight (connections net') = map weight (connections net) \<and>
        (\<forall>n<length (neurons net). n < unat (num_input net) \<longrightarrow>
           output_val (neurons net' ! n) = output_val (neurons net ! n)) \<and>
        (\<forall>n<length (neurons net'). unat (num_input net) \<le> n \<longrightarrow>
           input_sum (neurons net' ! n) = 0) \<and>
        length (neurons net') = length (neurons net) \<and>
        map type (neurons net') = map type (neurons net) \<and>
        net' = net\<lparr>connections := connections net', neurons := neurons net'\<rparr>"
proof -
  from reachable_neurons_inv [OF assms(1)] have
    len: "length (neurons net) = unat (total_num_neurons net)"
    by (simp add: neurons_inv_def)
  with assms(2) have "\<forall>c\<in>set (connections net).
             unat (source_neuron_idx c) < length (neurons net) \<and>
             unat (target_neuron_idx c) < length (neurons net)"
    by simp
  from activate_defined [OF len this] obtain net' where a: "activate net = Some net'" by blast
  from activate_frame_returned [OF assms(1) a] a show ?thesis by blast
qed

text \<open>The premises of C10 hold for the network with one connection.\<close>

theorem activate_frame_witness:
  "reachable (net_1_1 1) \<and>
   map source_neuron_idx (connections (net_1_1 1)) = [0] \<and>
   map target_neuron_idx (connections (net_1_1 1)) = [1] \<and>
   unat (total_num_neurons (net_1_1 1)) = 2 \<and>
   (\<exists>net'. activate (net_1_1 1) = Some net' \<and>
      map weight (connections net') = [1] \<and>
      output_val (neurons net' ! 0) = 0 \<and>
      input_sum (neurons net' ! 1) = 0)"
proof -
  have i: "\<forall>c\<in>set (connections (net_1_1 1)).
             unat (source_neuron_idx c) < unat (total_num_neurons (net_1_1 1)) \<and>
             unat (target_neuron_idx c) < unat (total_num_neurons (net_1_1 1))"
    by (simp add: net_1_1_def)
  from activate_frame [OF reachable_1_1 i] obtain net' where
    a: "activate (net_1_1 1) = Some net'" and
    "map weight (connections net') = map weight (connections (net_1_1 1))"
    "\<forall>n<length (neurons (net_1_1 1)). n < unat (num_input (net_1_1 1)) \<longrightarrow>
           output_val (neurons net' ! n) = output_val (neurons (net_1_1 1) ! n)"
    "\<forall>n<length (neurons net'). unat (num_input (net_1_1 1)) \<le> n \<longrightarrow>
           input_sum (neurons net' ! n) = 0"
    "length (neurons net') = length (neurons (net_1_1 1))"
    by blast
  then have "map weight (connections net') = [1]" "output_val (neurons net' ! 0) = 0"
    "input_sum (neurons net' ! 1) = 0"
    by (simp_all add: net_1_1_def Neuron_ctor_def)
  with a reachable_1_1 show ?thesis by (simp add: net_1_1_def)
qed

text \<open>
  C10 as stated covers every network. The constructor accepts an index equal to
  \<open>total_num_neurons\<close>, and \<open>deserialize\<close> takes the indices as the file has them: in
  the network built from the counts \<open>[1, 1]\<close> with a connection from index 0 to index 2,
  and in the network restored from a file with a connection from index 0 to index 3,
  \<open>activate\<close> adds to the accumulator of a neuron that the vector of two neurons does not
  hold, and nothing is known of the network afterwards.
\<close>

theorem activate_frame_counterexample:
  "ANN_ctor [1, 1] [0] [2] [1] = Inr net_oob_target \<and>
   reachable net_oob_target \<and>
   length (neurons net_oob_target) = 2 \<and>
   map edge (connections net_oob_target) = [(0, 2)] \<and>
   activate net_oob_target = None \<and>
   deserialize (net_1_1 1) (Some file_edge_0_3) = Some (0, net_edge_0_3) \<and>
   reachable net_edge_0_3 \<and>
   length (neurons net_edge_0_3) = 2 \<and>
   map edge (connections net_edge_0_3) = [(0, 3)] \<and>
   activate net_edge_0_3 = None"
proof -
  have "reachable net_oob_target" using ctor_oob_target by (rule reachable.r_ctor)
  moreover have "reachable net_edge_0_3"
    using deserialize_edge_0_3 by (rule reachable.r_deserialize)
  moreover have "length (neurons net_oob_target) = 2" "length (neurons net_edge_0_3) = 2"
    "map edge (connections net_oob_target) = [(0, 2)]"
    "map edge (connections net_edge_0_3) = [(0, 3)]"
    by (simp_all add: net_oob_target_def net_edge_0_3_def edge_def)
  ultimately show ?thesis
    using ctor_oob_target activate_oob_target deserialize_edge_0_3 activate_edge_0_3
    by simp
qed

end
